theory Spec2Isabelle
  imports Complex_Main "HOL-Library.Sublist"
begin

section \<open>Numbers, errors and geometry helpers\<close>

text \<open>
  The coverage engine lives in the map component (the \<open>MapView\<close> part of
  \<^verbatim>\<open>src/components/StreetToast.tsx\<close>). JavaScript numbers are modelled as
  real numbers: rounding of IEEE doubles is not part of the model. The one non-finite
  value the engine really computes with, \<open>Infinity\<close> (the initial best distance of
  both nearest-searches), is kept as a value of its own. A read of \<open>coords[0][0]\<close>
  on an empty array raises a \<open>TypeError\<close> in the source; it is a value of the
  error type here.
\<close>

datatype js_error = TypeError

datatype jsnum = Num real | Infinity

fun jsless :: "jsnum \<Rightarrow> jsnum \<Rightarrow> bool" where
  "jsless (Num a) (Num b) = (a < b)"
| "jsless (Num a) Infinity = True"
| "jsless Infinity _ = False"

fun jsle :: "jsnum \<Rightarrow> jsnum \<Rightarrow> bool" where
  "jsle (Num a) (Num b) = (a \<le> b)"
| "jsle _ Infinity = True"
| "jsle Infinity (Num b) = False"

type_synonym coord = "real \<times> real"

record Sample =
  sampleLon :: real
  sampleLat :: real
  sampleT :: real

record SegmentCoverage =
  wayId :: int
  featureIndex :: nat
  coords :: "coord list"
  samples :: "Sample list"
  covered :: "bool list"
  validated :: bool
  minCoveredT :: real
  maxCoveredT :: real

text \<open>\<open>distancePointToPoint\<close>: planar distance in metres, the cosine taken at \<open>py\<close>.\<close>

definition distancePointToPoint :: "real \<Rightarrow> real \<Rightarrow> real \<Rightarrow> real \<Rightarrow> real" where
  "distancePointToPoint px py qx qy =
     (let cosLat = cos ((py * pi) / 180);
          dLon = (px - qx) * 111000 * cosLat;
          dLat = (py - qy) * 111000
      in sqrt (dLon * dLon + dLat * dLat))"

text \<open>
  The three polyline functions precompute the same \<open>segLengths\<close> array with the same
  loop body; \<open>segLength\<close> is that body and \<open>segLengths\<close> the loop. The sum
  \<open>segLengths.reduce((a, b) => a + b, 0)\<close> is \<open>sum_list\<close>.
\<close>

definition segLength :: "real \<Rightarrow> coord \<Rightarrow> coord \<Rightarrow> real" where
  "segLength cosLat a b =
     (let dLon = (fst b - fst a) * 111000 * cosLat;
          dLat = (snd b - snd a) * 111000
      in sqrt (dLon * dLon + dLat * dLat))"

fun segLengths :: "real \<Rightarrow> coord list \<Rightarrow> real list" where
  "segLengths cosLat (a # b # rest) = segLength cosLat a b # segLengths cosLat (b # rest)"
| "segLengths cosLat [a] = []"
| "segLengths cosLat [] = []"

section \<open>Projection of a point onto a polyline\<close>

record Projection =
  projT :: real
  projLon :: real
  projLat :: real
  projDistance :: jsnum

text \<open>
  One iteration of the main loop of \<open>projectOntoLineString\<close> on the segment from
  \<open>a\<close> to \<open>b\<close>: it returns the best-so-far record after the iteration.
\<close>

definition projectStep ::
  "real \<Rightarrow> real \<Rightarrow> real \<Rightarrow> real \<Rightarrow> coord \<Rightarrow> coord \<Rightarrow> real \<Rightarrow> Projection \<Rightarrow> Projection" where
  "projectStep px py cosLat totalLen a b cumDist best =
     (let ax = fst a; ay = snd a; bx = fst b; by = snd b;
          segLen = segLength cosLat a b;
          dLon = (bx - ax) * 111000 * cosLat;
          dLat = (by - ay) * 111000;
          localT = (if segLen > 0
                    then (let pLon = (px - ax) * 111000 * cosLat;
                              pLat = (py - ay) * 111000
                          in max 0 (min 1 ((pLon * dLon + pLat * dLat) / (segLen * segLen))))
                    else 0);
          cLon = ax + (bx - ax) * localT;
          cLat = ay + (by - ay) * localT;
          eLon = (px - cLon) * 111000 * cosLat;
          eLat = (py - cLat) * 111000;
          dist = sqrt (eLon * eLon + eLat * eLat)
      in if jsless (Num dist) (projDistance best)
         then \<lparr>projT = (if totalLen > 0 then (cumDist + localT * segLen) / totalLen else 0),
               projLon = cLon, projLat = cLat, projDistance = Num dist\<rparr>
         else best)"

text \<open>
  The loop itself: the list argument is the part of \<open>coords\<close> from index \<open>i\<close> on,
  \<open>cumDist\<close> and the best-so-far record are the loop's variables.
\<close>

fun projectLoop ::
  "real \<Rightarrow> real \<Rightarrow> real \<Rightarrow> real \<Rightarrow> coord list \<Rightarrow> real \<Rightarrow> Projection \<Rightarrow> Projection" where
  "projectLoop px py cosLat totalLen (a # b # rest) cumDist best =
     projectLoop px py cosLat totalLen (b # rest) (cumDist + segLength cosLat a b)
       (projectStep px py cosLat totalLen a b cumDist best)"
| "projectLoop px py cosLat totalLen [a] cumDist best = best"
| "projectLoop px py cosLat totalLen [] cumDist best = best"

definition projectOntoLineString :: "real \<Rightarrow> real \<Rightarrow> coord list \<Rightarrow> js_error + Projection" where
  "projectOntoLineString px py cs =
     (let cosLat = cos ((py * pi) / 180);
          totalLen = sum_list (segLengths cosLat cs)
      in case cs of
           [] \<Rightarrow> Inl TypeError
         | c0 # _ \<Rightarrow>
             Inr (projectLoop px py cosLat totalLen cs 0
                    \<lparr>projT = 0, projLon = fst c0, projLat = snd c0, projDistance = Infinity\<rparr>))"

section \<open>Nearest segment\<close>

text \<open>
  \<open>findNearestSegment\<close> returns a reference to the winning coverage object. The
  coverage objects are the elements of one array, so the reference is modelled as the
  element's index in that array (\<open>nearCoverage\<close>).
\<close>

record Nearest =
  nearCoverage :: nat
  nearT :: real
  snappedLon :: real
  snappedLat :: real
  nearDistance :: jsnum

record NearestAcc =
  bestDist :: jsnum
  bestCov :: "nat option"
  bestT :: real
  bestLon :: real
  bestLat :: real

fun nearestLoop ::
  "real \<Rightarrow> real \<Rightarrow> SegmentCoverage list \<Rightarrow> nat \<Rightarrow> NearestAcc \<Rightarrow> js_error + NearestAcc" where
  "nearestLoop lon lat [] i acc = Inr acc"
| "nearestLoop lon lat (cov # rest) i acc =
     (case projectOntoLineString lon lat (coords cov) of
        Inl e \<Rightarrow> Inl e
      | Inr proj \<Rightarrow>
          nearestLoop lon lat rest (Suc i)
            (if jsless (projDistance proj) (bestDist acc)
             then \<lparr>bestDist = projDistance proj, bestCov = Some i, bestT = projT proj,
                   bestLon = projLon proj, bestLat = projLat proj\<rparr>
             else acc))"

definition findNearestSegment ::
  "real \<Rightarrow> real \<Rightarrow> SegmentCoverage list \<Rightarrow> js_error + Nearest option" where
  "findNearestSegment lon lat coverages =
     (if length coverages = 0 then Inr None
      else case nearestLoop lon lat coverages 0
                  \<lparr>bestDist = Infinity, bestCov = None, bestT = 0, bestLon = lon, bestLat = lat\<rparr> of
             Inl e \<Rightarrow> Inl e
           | Inr acc \<Rightarrow>
               (case bestCov acc of
                  None \<Rightarrow> Inr None
                | Some i \<Rightarrow>
                    Inr (Some \<lparr>nearCoverage = i, nearT = bestT acc, snappedLon = bestLon acc,
                               snappedLat = bestLat acc, nearDistance = bestDist acc\<rparr>)))"

section \<open>Sampling a polyline\<close>

text \<open>
  \<open>steps = Math.max(1, Math.ceil(segLen / stepMeters))\<close> is the bound of the inner
  loop. For \<open>stepMeters = 0\<close> the quotient is \<open>Infinity\<close> (the inner loop never
  ends: \<open>None\<close>) or, for a segment of length 0, \<open>NaN\<close> (the loop condition
  \<open>j < NaN\<close> is false at once: no iteration).
\<close>

definition stepCount :: "real \<Rightarrow> real \<Rightarrow> nat option" where
  "stepCount segLen stepMeters =
     (if stepMeters = 0 then (if segLen = 0 then Some 0 else None)
      else Some (nat (max 1 \<lceil>segLen / stepMeters\<rceil>)))"

definition samplePoint :: "coord \<Rightarrow> coord \<Rightarrow> real \<Rightarrow> real \<Rightarrow> real \<Rightarrow> nat \<Rightarrow> nat \<Rightarrow> Sample" where
  "samplePoint a b segLen cumDist totalLen steps j =
     (let localT = real j / real steps
      in \<lparr>sampleLon = fst a + (fst b - fst a) * localT,
          sampleLat = snd a + (snd b - snd a) * localT,
          sampleT = (if totalLen > 0 then (cumDist + localT * segLen) / totalLen else 0)\<rparr>)"

function sampleSteps :: "coord \<Rightarrow> coord \<Rightarrow> real \<Rightarrow> real \<Rightarrow> real \<Rightarrow> nat \<Rightarrow> nat \<Rightarrow> Sample list" where
  "sampleSteps a b segLen cumDist totalLen steps j =
     (if j < steps
      then samplePoint a b segLen cumDist totalLen steps j
             # sampleSteps a b segLen cumDist totalLen steps (Suc j)
      else [])"
  by pat_completeness auto
termination
  by (relation "measure (\<lambda>(a, b, segLen, cumDist, totalLen, steps, j). steps - j)") auto

declare sampleSteps.simps [simp del]

fun sampleSegments :: "real \<Rightarrow> real \<Rightarrow> real \<Rightarrow> coord list \<Rightarrow> real \<Rightarrow> Sample list option" where
  "sampleSegments cosLat stepMeters totalLen (a # b # rest) cumDist =
     (case stepCount (segLength cosLat a b) stepMeters of
        None \<Rightarrow> None
      | Some steps \<Rightarrow>
          (case sampleSegments cosLat stepMeters totalLen (b # rest)
                  (cumDist + segLength cosLat a b) of
             None \<Rightarrow> None
           | Some later \<Rightarrow>
               Some (sampleSteps a b (segLength cosLat a b) cumDist totalLen steps 0 @ later)))"
| "sampleSegments cosLat stepMeters totalLen [a] cumDist = Some []"
| "sampleSegments cosLat stepMeters totalLen [] cumDist = Some []"

definition sampleLineStringWithT :: "coord list \<Rightarrow> real \<Rightarrow> Sample list option" where
  "sampleLineStringWithT cs stepMeters =
     (if length cs < 2 then Some []
      else (let cosLat = cos ((snd (hd cs) * pi) / 180);
                totalLen = sum_list (segLengths cosLat cs)
            in case sampleSegments cosLat stepMeters totalLen cs 0 of
                 None \<Rightarrow> None
               | Some ss \<Rightarrow>
                   Some (ss @ [\<lparr>sampleLon = fst (last cs), sampleLat = snd (last cs),
                                sampleT = 1\<rparr>])))"

section \<open>Sub-polyline between two arc-length fractions\<close>

definition interp :: "coord \<Rightarrow> coord \<Rightarrow> real \<Rightarrow> coord" where
  "interp a b localT = (fst a + (fst b - fst a) * localT, snd a + (snd b - snd a) * localT)"

text \<open>The block under \<open>// First point of the sub-line\<close>.\<close>

definition pushFirst :: "real \<Rightarrow> coord \<Rightarrow> coord \<Rightarrow> real \<Rightarrow> real \<Rightarrow> coord list \<Rightarrow> coord list" where
  "pushFirst startDist a b segLen segStart points =
     (if length points = 0
      then points @ [interp a b (if segLen > 0 then max 0 ((startDist - segStart) / segLen) else 0)]
      else points)"

text \<open>
  The loop of \<open>subLineString\<close>; \<open>segStart\<close> is \<open>cumDist\<close> and \<open>segEnd\<close> is
  \<open>cumDist + segLengths[i]\<close>. \<open>continue\<close> is the first branch, the two
  \<open>break\<close>s return the points collected so far.
\<close>

fun subLoop :: "real \<Rightarrow> real \<Rightarrow> real \<Rightarrow> coord list \<Rightarrow> real \<Rightarrow> coord list \<Rightarrow> coord list" where
  "subLoop cosLat startDist endDist (a # b # rest) cumDist points =
     (if cumDist + segLength cosLat a b < startDist
      then subLoop cosLat startDist endDist (b # rest) (cumDist + segLength cosLat a b) points
      else if cumDist > endDist then points
      else if cumDist + segLength cosLat a b \<le> endDist
      then subLoop cosLat startDist endDist (b # rest) (cumDist + segLength cosLat a b)
             (pushFirst startDist a b (segLength cosLat a b) cumDist points @ [b])
      else pushFirst startDist a b (segLength cosLat a b) cumDist points
             @ [interp a b (if segLength cosLat a b > 0
                            then (endDist - cumDist) / segLength cosLat a b else 0)])"
| "subLoop cosLat startDist endDist [a] cumDist points = points"
| "subLoop cosLat startDist endDist [] cumDist points = points"

definition subLineString :: "coord list \<Rightarrow> real \<Rightarrow> real \<Rightarrow> coord list option" where
  "subLineString cs t0 t1 =
     (if t0 \<ge> t1 \<or> length cs < 2 then None
      else (let cosLat = cos ((snd (hd cs) * pi) / 180);
                totalLen = sum_list (segLengths cosLat cs)
            in if totalLen = 0 then None
               else (let startDist = t0 * totalLen;
                         endDist = t1 * totalLen;
                         points = subLoop cosLat startDist endDist cs 0 []
                     in if length points \<ge> 2 then Some points else None)))"

section \<open>Constants and badges\<close>

definition SAVE_EVERY_N :: int where "SAVE_EVERY_N = 10"
definition SAMPLE_STEP_METERS :: real where "SAMPLE_STEP_METERS = 5"
definition COVERAGE_RADIUS_METERS :: real where "COVERAGE_RADIUS_METERS = 15"
definition VALIDATION_THRESHOLD :: real where "VALIDATION_THRESHOLD = 0.80"
definition MAP_MATCH_MAX_DIST :: real where "MAP_MATCH_MAX_DIST = 50"

record Badge =
  badgeId :: string
  emoji :: string
  badgeName :: string

record BadgeDef = Badge +
  threshold :: nat

text \<open>The emoji and the accented letter are written as their UTF-8 bytes.\<close>

definition BADGE_DEFS :: "BadgeDef list" where
  "BADGE_DEFS =
     [\<lparr>badgeId = ''first_step'', emoji = [CHR 0xF0, CHR 0x9F, CHR 0x9A, CHR 0xB6],
        badgeName = ''Premier pas'', threshold = 1\<rparr>,
      \<lparr>badgeId = ''explorer'',
        emoji = [CHR 0xF0, CHR 0x9F, CHR 0x97, CHR 0xBA, CHR 0xEF, CHR 0xB8, CHR 0x8F],
        badgeName = ''Explorateur'', threshold = 50\<rparr>,
      \<lparr>badgeId = ''walker'', emoji = [CHR 0xF0, CHR 0x9F, CHR 0x8F, CHR 0x83],
        badgeName = ''Marcheur'', threshold = 125\<rparr>,
      \<lparr>badgeId = ''connoisseur'', emoji = [CHR 0xF0, CHR 0x9F, CHR 0x8C, CHR 0x86],
        badgeName = ''Connaisseur'', threshold = 249\<rparr>,
      \<lparr>badgeId = ''master'', emoji = [CHR 0xF0, CHR 0x9F, CHR 0x8F, CHR 0x86],
        badgeName = ''Ma'' @ [CHR 0xC3, CHR 0xAE] @ ''tre de Marly'', threshold = 498\<rparr>]"

section \<open>Engine state\<close>

text \<open>
  A GeoJSON feature of the street collection (its \<open>properties.id\<close> and the
  coordinates of its LineString), the payload of \<open>saveExploration\<close>, and the refs and
  React state of the component. A JavaScript \<open>Set\<close> is the list of its elements in
  insertion order, without duplicates; its \<open>size\<close> is the length of the list. The
  data handed to the two map sources and the calls of \<open>saveExploration\<close> are
  recorded in the state (\<open>progressSource\<close>, \<open>exploredSource\<close>, \<open>saves\<close>).
\<close>

record Feature =
  featureId :: int
  coordinates :: "coord list"

record Exploration =
  user_id :: string
  expCity :: string
  explored_way_ids :: "int list"
  total_ways :: nat
  badges :: "string list"

record Engine =
  city :: string
  geojson :: "Feature list option"
  segmentCoverages :: "SegmentCoverage list"
  validatedWayIds :: "int list"
  userId :: "string option"
  savedCount :: int
  unlockedBadges :: "string list"
  badgeQueue :: "Badge list"
  currentBadge :: "Badge option"
  lastPosition :: "coord option"
  marker :: "coord option"
  hasPosition :: bool
  streetCount :: "nat option"
  exploredCount :: nat
  mapError :: bool
  progressSource :: "coord list list"
  exploredSource :: "Feature list"
  saves :: "Exploration list"

definition setAdd :: "'a \<Rightarrow> 'a list \<Rightarrow> 'a list" where
  "setAdd x xs = (if x \<in> set xs then xs else xs @ [x])"

text \<open>JavaScript truthiness of \<open>userIdRef.current\<close> (\<open>string | null\<close>).\<close>

definition truthy :: "string option \<Rightarrow> bool" where
  "truthy u = (case u of None \<Rightarrow> False | Some v \<Rightarrow> v \<noteq> [])"

text \<open>
  Reads and writes of \<open>cov.covered[i]\<close>: a read past the end is \<open>undefined\<close>
  (falsy), a write past the end extends the array, the holes reading as falsy.
\<close>

definition jsGet :: "bool list \<Rightarrow> nat \<Rightarrow> bool" where
  "jsGet xs i = (if i < length xs then xs ! i else False)"

definition jsSet :: "bool list \<Rightarrow> nat \<Rightarrow> bool \<Rightarrow> bool list" where
  "jsSet xs i v =
     (if i < length xs then xs[i := v] else xs @ replicate (i - length xs) False @ [v])"

section \<open>Processing one fix\<close>

text \<open>Step 1 of \<open>updatePosition\<close>: last known position and marker.\<close>

definition storePosition :: "real \<Rightarrow> real \<Rightarrow> Engine \<Rightarrow> Engine" where
  "storePosition lon lat s =
     s\<lparr>hasPosition := (if lastPosition s = None then True else hasPosition s),
       lastPosition := Some (lon, lat),
       marker := Some (lon, lat)\<rparr>"

text \<open>
  Step 3: one iteration of the loop over the samples, on the pair of the coverage
  entry and the flag \<open>touched\<close>, and the loop (the list is \<open>cov.samples\<close> from index
  \<open>i\<close> on).
\<close>

definition markSample ::
  "real \<Rightarrow> real \<Rightarrow> Sample \<Rightarrow> nat \<Rightarrow> SegmentCoverage \<times> bool \<Rightarrow> SegmentCoverage \<times> bool" where
  "markSample snLon snLat smp i st =
     (let cov = fst st
      in if jsGet (covered cov) i then st
         else if distancePointToPoint (sampleLon smp) (sampleLat smp) snLon snLat
                   \<le> COVERAGE_RADIUS_METERS
         then (cov\<lparr>covered := jsSet (covered cov) i True,
                    minCoveredT := (if sampleT smp < minCoveredT cov then sampleT smp
                                    else minCoveredT cov),
                    maxCoveredT := (if sampleT smp > maxCoveredT cov then sampleT smp
                                    else maxCoveredT cov)\<rparr>, True)
         else st)"

fun markLoop ::
  "real \<Rightarrow> real \<Rightarrow> Sample list \<Rightarrow> nat \<Rightarrow> SegmentCoverage \<times> bool \<Rightarrow> SegmentCoverage \<times> bool" where
  "markLoop snLon snLat [] i st = st"
| "markLoop snLon snLat (smp # rest) i st =
     markLoop snLon snLat rest (Suc i) (markSample snLon snLat smp i st)"

text \<open>Step 4: the partial sub-LineStrings of all in-progress segments.\<close>

fun progressFeatures :: "SegmentCoverage list \<Rightarrow> coord list list" where
  "progressFeatures [] = []"
| "progressFeatures (c # rest) =
     (if validated c \<or> minCoveredT c > maxCoveredT c then progressFeatures rest
      else case subLineString (coords c) (minCoveredT c) (maxCoveredT c) of
             None \<Rightarrow> progressFeatures rest
           | Some pts \<Rightarrow> pts # progressFeatures rest)"

text \<open>
  Step 5: \<open>ratio < VALIDATION_THRESHOLD\<close>. With no samples the ratio is \<open>0/0 = NaN\<close>
  and the comparison is false.
\<close>

definition belowThreshold :: "SegmentCoverage \<Rightarrow> bool" where
  "belowThreshold cov =
     (length (samples cov) \<noteq> 0 \<and>
      real (length (filter (\<lambda>x. x) (covered cov))) / real (length (samples cov))
        < VALIDATION_THRESHOLD)"

text \<open>Badge detection and the badge queue.\<close>

definition newBadges :: "string list \<Rightarrow> nat \<Rightarrow> BadgeDef list" where
  "newBadges unlocked currentSize =
     filter (\<lambda>b. badgeId b \<notin> set unlocked \<and> currentSize \<ge> threshold b) BADGE_DEFS"

definition toBadge :: "BadgeDef \<Rightarrow> Badge" where
  "toBadge b = \<lparr>badgeId = badgeId b, emoji = emoji b, badgeName = badgeName b\<rparr>"

definition announceBadges :: "BadgeDef list \<Rightarrow> Engine \<Rightarrow> Engine" where
  "announceBadges nbs s =
     (let s1 = s\<lparr>unlockedBadges := fold (\<lambda>b u. setAdd (badgeId b) u) nbs (unlockedBadges s),
                 badgeQueue := badgeQueue s @ map toBadge nbs\<rparr>
      in if length nbs > 0 \<and> currentBadge s1 = None
         then (case badgeQueue s1 of
                 [] \<Rightarrow> s1
               | next # q \<Rightarrow> s1\<lparr>badgeQueue := q, currentBadge := Some next\<rparr>)
         else s1)"

text \<open>The batched save at the end of \<open>updatePosition\<close>.\<close>

definition snapshot :: "string \<Rightarrow> nat \<Rightarrow> Engine \<Rightarrow> Exploration" where
  "snapshot uid n s =
     \<lparr>user_id = uid, expCity = city s, explored_way_ids = validatedWayIds s,
      total_ways = n, badges = unlockedBadges s\<rparr>"

definition saveBatch :: "Feature list \<Rightarrow> Engine \<Rightarrow> Engine" where
  "saveBatch features s =
     (let currentSize = int (length (validatedWayIds s))
      in case userId s of
           None \<Rightarrow> s
         | Some uid \<Rightarrow>
             if uid \<noteq> [] \<and> currentSize - savedCount s \<ge> SAVE_EVERY_N
             then s\<lparr>savedCount := currentSize,
                    saves := saves s @ [snapshot uid (length features) s]\<rparr>
             else s)"

text \<open>
  Everything after the threshold test, on the winning entry \<open>cov\<close> (the object at
  index \<open>idx\<close> of the array): it becomes validated, its way id joins the validated
  set, the explored source is rebuilt, badges are detected and the batched save runs.
\<close>

definition validateSegment :: "Feature list \<Rightarrow> nat \<Rightarrow> SegmentCoverage \<Rightarrow> Engine \<Rightarrow> Engine" where
  "validateSegment features idx cov s =
     (let s1 = s\<lparr>segmentCoverages := (segmentCoverages s)[idx := cov\<lparr>validated := True\<rparr>],
                 validatedWayIds := setAdd (wayId cov) (validatedWayIds s)\<rparr>;
          s2 = s1\<lparr>exploredSource := filter (\<lambda>f. featureId f \<in> set (validatedWayIds s1)) features\<rparr>;
          currentSize = length (validatedWayIds s2);
          s3 = s2\<lparr>exploredCount := currentSize\<rparr>;
          s4 = announceBadges (newBadges (unlockedBadges s3) currentSize) s3
      in saveBatch features s4)"

text \<open>
  The outcome of a handler: it returned, or an exception left it; either way the
  refs keep what was written before.
\<close>

datatype outcome = Returned Engine | Threw js_error Engine

fun stateOf :: "outcome \<Rightarrow> Engine" where
  "stateOf (Returned s) = s"
| "stateOf (Threw e s) = s"

text \<open>
  Steps 3 to 5 on the winning entry. \<open>mapReady\<close> below is the value of
  \<open>map && map.isStyleLoaded()\<close> when the fix arrives.
\<close>

definition coverNearest :: "Feature list \<Rightarrow> Nearest \<Rightarrow> Engine \<Rightarrow> Engine" where
  "coverNearest features nearest s =
     (let idx = nearCoverage nearest;
          cov = segmentCoverages s ! idx
      in if validated cov then s
         else (let marked = markLoop (snappedLon nearest) (snappedLat nearest) (samples cov) 0
                              (cov, False);
                   s2 = s\<lparr>segmentCoverages := (segmentCoverages s)[idx := fst marked]\<rparr>
               in if \<not> snd marked then s2
                  else (let s3 = s2\<lparr>progressSource := progressFeatures (segmentCoverages s2)\<rparr>
                        in if belowThreshold (fst marked) then s3
                           else validateSegment features idx (fst marked) s3)))"

definition updatePosition :: "bool \<Rightarrow> real \<Rightarrow> real \<Rightarrow> Engine \<Rightarrow> outcome" where
  "updatePosition mapReady lon lat s =
     (if \<not> mapReady then Returned s
      else case geojson s of
             None \<Rightarrow> Returned s
           | Some features \<Rightarrow>
               if length (segmentCoverages s) = 0 then Returned s
               else (let s1 = storePosition lon lat s
                     in case findNearestSegment lon lat (segmentCoverages s1) of
                          Inl e \<Rightarrow> Threw e s1
                        | Inr None \<Rightarrow> Returned s1
                        | Inr (Some nearest) \<Rightarrow>
                            if jsless (Num MAP_MATCH_MAX_DIST) (nearDistance nearest)
                            then Returned s1
                            else Returned (coverNearest features nearest s1)))"

text \<open>A fix is the readiness of the map when it arrives, and its longitude and latitude.\<close>

type_synonym gpsFix = "bool \<times> real \<times> real"

fun processFixes :: "gpsFix list \<Rightarrow> Engine \<Rightarrow> Engine" where
  "processFixes [] s = s"
| "processFixes (f # fs) s =
     processFixes fs (stateOf (updatePosition (fst f) (fst (snd f)) (snd (snd f)) s))"

section \<open>Session start and teardown\<close>

record OsmPoint =
  osmLat :: real
  osmLon :: real

record OverpassWay =
  osmId :: int
  geometry :: "OsmPoint list"

definition streetsToGeoJSON :: "OverpassWay list \<Rightarrow> Feature list" where
  "streetsToGeoJSON elements =
     map (\<lambda>way. \<lparr>featureId = osmId way,
                  coordinates = map (\<lambda>p. (osmLon p, osmLat p)) (geometry way)\<rparr>) elements"

text \<open>
  \<open>getUserId\<close> (the storage helper module): the stored id if it is truthy, else a
  fresh \<open>crypto.randomUUID()\<close>, here the argument \<open>uuid\<close>.
\<close>

definition getUserId :: "string option \<Rightarrow> string \<Rightarrow> string" where
  "getUserId stored uuid =
     (case stored of
        None \<Rightarrow> uuid
      | Some v \<Rightarrow> if v = [] then uuid else v)"

text \<open>
  What the load handler receives: the stored user id and the fresh UUID, whether the
  street data arrived (\<open>dataLoaded\<close> false: a rejected promise or a response that is
  not ok, which lands in the \<open>catch\<close>), the streets and the saved exploration.
\<close>

record LoadInput =
  storedUserId :: "string option"
  freshUuid :: string
  dataLoaded :: bool
  streets :: "OverpassWay list"
  savedIds :: "int list"
  savedBadges :: "string list"

text \<open>
  The coverage entry of one feature. The sampler returns for the step of 5 metres
  (lemma \<open>sampleLineStringWithT_returns\<close>), so the \<open>None\<close> branch is never taken.
\<close>

definition newCoverage :: "nat \<Rightarrow> Feature \<Rightarrow> SegmentCoverage" where
  "newCoverage idx f =
     (let smps = (case sampleLineStringWithT (coordinates f) SAMPLE_STEP_METERS of
                    None \<Rightarrow> []
                  | Some ss \<Rightarrow> ss)
      in \<lparr>wayId = featureId f, featureIndex = idx, coords = coordinates f, samples = smps,
          covered = replicate (length smps) False, validated = False,
          minCoveredT = 1, maxCoveredT = 0\<rparr>)"

fun findIndex :: "('a \<Rightarrow> bool) \<Rightarrow> 'a list \<Rightarrow> nat option" where
  "findIndex P [] = None"
| "findIndex P (x # xs) =
     (if P x then Some 0 else (case findIndex P xs of None \<Rightarrow> None | Some i \<Rightarrow> Some (Suc i)))"

text \<open>The body of \<open>savedIds.forEach\<close>.\<close>

definition restoreId :: "int \<Rightarrow> Engine \<Rightarrow> Engine" where
  "restoreId wid s =
     (let s1 = s\<lparr>validatedWayIds := setAdd wid (validatedWayIds s)\<rparr>
      in case findIndex (\<lambda>c. wayId c = wid) (segmentCoverages s1) of
           None \<Rightarrow> s1
         | Some i \<Rightarrow>
             s1\<lparr>segmentCoverages :=
                  (segmentCoverages s1)
                    [i := (segmentCoverages s1 ! i)
                            \<lparr>validated := True,
                             covered := replicate (length (covered (segmentCoverages s1 ! i))) True,
                             minCoveredT := 0, maxCoveredT := 1\<rparr>]\<rparr>)"

definition initEngine :: "string \<Rightarrow> Engine" where
  "initEngine c =
     \<lparr>city = c, geojson = None, segmentCoverages = [], validatedWayIds = [], userId = None,
      savedCount = 0, unlockedBadges = [], badgeQueue = [], currentBadge = None,
      lastPosition = None, marker = None, hasPosition = False, streetCount = None,
      exploredCount = 0, mapError = False, progressSource = [], exploredSource = [],
      saves = []\<rparr>"

definition mapLoad :: "LoadInput \<Rightarrow> Engine \<Rightarrow> Engine" where
  "mapLoad inp s =
     (let s1 = s\<lparr>userId := Some (getUserId (storedUserId inp) (freshUuid inp))\<rparr>
      in if \<not> dataLoaded inp then s1\<lparr>mapError := True\<rparr>
         else (let features = streetsToGeoJSON (streets inp);
                   s2 = s1\<lparr>geojson := Some features,
                          segmentCoverages := map (\<lambda>(idx, f). newCoverage idx f)
                                                (zip [0..<length features] features)\<rparr>;
                   s3 = fold restoreId (savedIds inp) s2;
                   s4 = s3\<lparr>unlockedBadges := fold setAdd (savedBadges inp) (unlockedBadges s3),
                          savedCount := int (length (savedIds inp))\<rparr>;
                   restoredFeatures =
                     (if length (savedIds inp) > 0
                      then filter (\<lambda>f. featureId f \<in> set (validatedWayIds s4)) features
                      else [])
               in s4\<lparr>progressSource := [],
                     exploredSource := restoredFeatures,
                     streetCount := Some (length (streets inp)),
                     exploredCount := (if length (savedIds inp) > 0 then length (savedIds inp)
                                       else exploredCount s4)\<rparr>))"

text \<open>The final flush of the effect's cleanup function.\<close>

definition cleanup :: "Engine \<Rightarrow> Engine" where
  "cleanup s =
     (case userId s of
        None \<Rightarrow> s
      | Some uid \<Rightarrow>
          (case geojson s of
             None \<Rightarrow> s
           | Some features \<Rightarrow>
               if uid \<noteq> [] \<and> int (length (validatedWayIds s)) > savedCount s
               then s\<lparr>saves := saves s @ [snapshot uid (length features) s]\<rparr>
               else s))"

section \<open>Sessions\<close>

text \<open>
  A session: the load handler on the initial state, then the fixes in arrival order.
  \<open>sessionInv\<close> holds throughout a session: the user id is a non-empty string, and as
  long as no street data is loaded nothing is validated and nothing counts as saved.
\<close>

definition session :: "string \<Rightarrow> LoadInput \<Rightarrow> gpsFix list \<Rightarrow> Engine" where
  "session c inp fxs = processFixes fxs (mapLoad inp (initEngine c))"

definition sessionInv :: "Engine \<Rightarrow> bool" where
  "sessionInv s \<longleftrightarrow>
     truthy (userId s) \<and> (geojson s = None \<longrightarrow> validatedWayIds s = [] \<and> savedCount s = 0)"

section \<open>Notions used to state the geometric claims\<close>

text \<open>
  The arc-length position of a vertex is the sum of the lengths of the segments before
  it. For a list \<open>xs\<close> of vertices whose first vertex stands at arc length \<open>c\<close>,
  \<open>verticesWithin cosLat lo hi xs c\<close> lists, in order, the vertices after the first
  whose position lies in the closed interval from \<open>lo\<close> to \<open>hi\<close>;
  \<open>spec_verticesStrictlyWithin\<close> follows the words of the specification and takes the
  open interval. \<open>atArcLength cosLat xs c p d\<close> says that the point \<open>p\<close> lies on the
  polyline at arc length \<open>d\<close>: on some segment, at a fraction \<open>lam\<close> of it, where the
  length run so far is \<open>d\<close>.
\<close>

fun verticesWithin :: "real \<Rightarrow> real \<Rightarrow> real \<Rightarrow> coord list \<Rightarrow> real \<Rightarrow> coord list" where
  "verticesWithin cosLat lo hi (a # b # rest) c =
     (if lo \<le> c + segLength cosLat a b \<and> c + segLength cosLat a b \<le> hi then [b] else [])
       @ verticesWithin cosLat lo hi (b # rest) (c + segLength cosLat a b)"
| "verticesWithin cosLat lo hi [a] c = []"
| "verticesWithin cosLat lo hi [] c = []"

fun spec_verticesStrictlyWithin :: "real \<Rightarrow> real \<Rightarrow> real \<Rightarrow> coord list \<Rightarrow> real \<Rightarrow> coord list" where
  "spec_verticesStrictlyWithin cosLat lo hi (a # b # rest) c =
     (if lo < c + segLength cosLat a b \<and> c + segLength cosLat a b < hi then [b] else [])
       @ spec_verticesStrictlyWithin cosLat lo hi (b # rest) (c + segLength cosLat a b)"
| "spec_verticesStrictlyWithin cosLat lo hi [a] c = []"
| "spec_verticesStrictlyWithin cosLat lo hi [] c = []"

definition atArcLength :: "real \<Rightarrow> coord list \<Rightarrow> real \<Rightarrow> coord \<Rightarrow> real \<Rightarrow> bool" where
  "atArcLength cosLat xs c p d \<longleftrightarrow>
     (\<exists>i lam. Suc i < length xs \<and> 0 \<le> lam \<and> lam \<le> 1
        \<and> p = interp (xs ! i) (xs ! Suc i) lam
        \<and> c + sum_list (take i (segLengths cosLat xs))
             + lam * segLength cosLat (xs ! i) (xs ! Suc i) = d)"

text \<open>
  \<open>spec_segmentSamples cs stepMeters i\<close> follows the words of the specification for
  the samples of segment \<open>i\<close> (with the number of steps the code uses): local
  \<open>t = j / steps\<close>, the point interpolated there, and the global \<open>t\<close> from the
  cumulative length before the segment.
\<close>

definition spec_segmentSamples :: "coord list \<Rightarrow> real \<Rightarrow> nat \<Rightarrow> Sample list" where
  "spec_segmentSamples cs stepMeters i =
     (let cosLat = cos ((snd (hd cs) * pi) / 180);
          lens = segLengths cosLat cs;
          totalLen = sum_list lens;
          segLen = lens ! i;
          cumDist = sum_list (take i lens);
          steps = nat (max 1 \<lceil>segLen / stepMeters\<rceil>);
          a = cs ! i;
          b = cs ! Suc i
      in map (\<lambda>j. \<lparr>sampleLon = fst a + (fst b - fst a) * (real j / real steps),
                     sampleLat = snd a + (snd b - snd a) * (real j / real steps),
                     sampleT = (if totalLen > 0
                                then (cumDist + (real j / real steps) * segLen) / totalLen
                                else 0)\<rparr>) [0..<steps])"

section \<open>Notions used in the proofs\<close>

text \<open>
  \<open>firstMin ds k\<close>: position \<open>k\<close> holds the least element of \<open>ds\<close> and is the first
  position that does. \<open>projOf\<close> is the projection record of an entry with at least one
  vertex, \<open>accOf\<close> the accumulator of \<open>findNearestSegment\<close> after the entry at an
  index won, and \<open>nearInv\<close> the invariant of its loop.
\<close>

definition firstMin :: "jsnum list \<Rightarrow> nat \<Rightarrow> bool" where
  "firstMin ds k \<longleftrightarrow> k < length ds \<and> (\<forall>j<length ds. jsle (ds ! k) (ds ! j)) \<and> (\<forall>j<k. jsless (ds ! k) (ds ! j))"

definition projOf :: "real \<Rightarrow> real \<Rightarrow> SegmentCoverage \<Rightarrow> Projection" where
  "projOf lon lat cov = projr (projectOntoLineString lon lat (coords cov))"

definition accOf :: "Projection \<Rightarrow> nat \<Rightarrow> NearestAcc" where
  "accOf p i = \<lparr>bestDist = projDistance p, bestCov = Some i, bestT = projT p,
                   bestLon = projLon p, bestLat = projLat p\<rparr>"

definition nearInv :: "real \<Rightarrow> real \<Rightarrow> real \<Rightarrow> real \<Rightarrow> SegmentCoverage list \<Rightarrow> NearestAcc \<Rightarrow> bool" where
  "nearInv lon0 lat0 lon lat cs a \<longleftrightarrow>
     (a = \<lparr>bestDist = Infinity, bestCov = None, bestT = 0, bestLon = lon0, bestLat = lat0\<rparr>
        \<and> (\<forall>j<length cs. projDistance (projOf lon lat (cs ! j)) = Infinity))
     \<or> (\<exists>k. firstMin (map (\<lambda>c. projDistance (projOf lon lat c)) cs) k
            \<and> jsless (projDistance (projOf lon lat (cs ! k))) Infinity
            \<and> a = accOf (projOf lon lat (cs ! k)) k)"

text \<open>
  The restore loop on the coverage entries alone: \<open>restoredEntry\<close> is an entry after
  the restore block ran on it, \<open>restoreCov\<close> the effect of one saved id on the list of
  entries, and \<open>isRestored\<close> the state of a fully restored entry.
\<close>

definition restoredEntry :: "SegmentCoverage \<Rightarrow> SegmentCoverage" where
  "restoredEntry cv = cv\<lparr>validated := True, covered := replicate (length (covered cv)) True,
                          minCoveredT := 0, maxCoveredT := 1\<rparr>"

definition restoreCov :: "int \<Rightarrow> SegmentCoverage list \<Rightarrow> SegmentCoverage list" where
  "restoreCov w covs =
     (case findIndex (\<lambda>cv. wayId cv = w) covs of
        None \<Rightarrow> covs
      | Some i \<Rightarrow> covs[i := restoredEntry (covs ! i)])"

definition isRestored :: "SegmentCoverage \<Rightarrow> bool" where
  "isRestored cv \<longleftrightarrow> validated cv \<and> covered cv = replicate (length (covered cv)) True
                      \<and> minCoveredT cv = 0 \<and> maxCoveredT cv = 1"

text \<open>
  The samples of segment \<open>i\<close> of a list of vertices that starts at cumulative length
  \<open>c\<close>, as the outer loop of the sampler produces them; and the first point and the
  interpolated end point pushed by the loop of \<open>subLineString\<close>, as functions of the
  remaining vertices and the cumulative length.
\<close>

definition segSamplesFrom :: "real \<Rightarrow> real \<Rightarrow> real \<Rightarrow> coord list \<Rightarrow> real \<Rightarrow> nat \<Rightarrow> Sample list" where
  "segSamplesFrom cosLat stepMeters totalLen xs c i =
     map (samplePoint (xs ! i) (xs ! Suc i) (segLengths cosLat xs ! i)
            (c + sum_list (take i (segLengths cosLat xs))) totalLen
            (nat (max 1 \<lceil>segLengths cosLat xs ! i / stepMeters\<rceil>)))
       [0..<nat (max 1 \<lceil>segLengths cosLat xs ! i / stepMeters\<rceil>)]"

fun startPoint :: "real \<Rightarrow> real \<Rightarrow> coord list \<Rightarrow> real \<Rightarrow> coord" where
  "startPoint cosLat s (a # b # rest) c =
     (if c + segLength cosLat a b < s
      then startPoint cosLat s (b # rest) (c + segLength cosLat a b)
      else interp a b (if segLength cosLat a b > 0
                       then max 0 ((s - c) / segLength cosLat a b) else 0))"
| "startPoint cosLat s [a] c = a"
| "startPoint cosLat s [] c = (0, 0)"

fun endPoints :: "real \<Rightarrow> real \<Rightarrow> coord list \<Rightarrow> real \<Rightarrow> coord list" where
  "endPoints cosLat e (a # b # rest) c =
     (if c + segLength cosLat a b \<le> e
      then endPoints cosLat e (b # rest) (c + segLength cosLat a b)
      else [interp a b (if segLength cosLat a b > 0
                        then (e - c) / segLength cosLat a b else 0)])"
| "endPoints cosLat e [a] c = []"
| "endPoints cosLat e [] c = []"

section \<open>Example data\<close>

text \<open>
  Coverage entries: a street of one vertex; a street of two vertices one degree of
  latitude apart, without samples, validated, and with one and two hand-placed
  samples; a street one metre long with the samples the sampler gives it; and the
  plain polyline of three vertices on a meridian.
\<close>

definition degenerateStreet :: SegmentCoverage where
  "degenerateStreet = \<lparr>wayId = 7, featureIndex = 0, coords = [(0, 0)], samples = [],
      covered = [], validated = False, minCoveredT = 1, maxCoveredT = 0\<rparr>"

definition straightStreet :: SegmentCoverage where
  "straightStreet = \<lparr>wayId = 1, featureIndex = 0, coords = [(0, 0), (0, 1)], samples = [],
      covered = [], validated = False, minCoveredT = 1, maxCoveredT = 0\<rparr>"

definition validatedStreet :: SegmentCoverage where
  "validatedStreet = straightStreet\<lparr>validated := True\<rparr>"

definition onePointStreet :: SegmentCoverage where
  "onePointStreet = straightStreet
     \<lparr>samples := [\<lparr>sampleLon = 0, sampleLat = 0, sampleT = 0\<rparr>], covered := [False]\<rparr>"

definition twoPointStreet :: SegmentCoverage where
  "twoPointStreet = straightStreet
     \<lparr>samples := [\<lparr>sampleLon = 0, sampleLat = 0, sampleT = 0\<rparr>,
                  \<lparr>sampleLon = 0, sampleLat = 1, sampleT = 1\<rparr>],
      covered := [False, False]\<rparr>"

definition metreStreet :: SegmentCoverage where
  "metreStreet =
     \<lparr>wayId = 1, featureIndex = 0, coords = [(0, 0), (0, 1 / 111000)],
      samples = [\<lparr>sampleLon = 0, sampleLat = 0, sampleT = 0\<rparr>,
                 \<lparr>sampleLon = 0, sampleLat = 1 / 111000, sampleT = 1\<rparr>],
      covered = [False, False], validated = False, minCoveredT = 1, maxCoveredT = 0\<rparr>"

definition bendStreet :: "coord list" where
  "bendStreet = [(0, 0), (0, 1), (0, 2)]"

text \<open>
  \<open>exampleEngine covs\<close> is a loaded state whose coverage entries are \<open>covs\<close>. The load
  inputs: one street one metre long and nothing saved; the same with the saved ids 99
  (no such street) and 1; and one street without any vertex.
\<close>

definition exampleEngine :: "SegmentCoverage list \<Rightarrow> Engine" where
  "exampleEngine covs =
     (initEngine ''Marly-le-Roi'')
       \<lparr>geojson := Some (map (\<lambda>c. \<lparr>featureId = wayId c, coordinates = coords c\<rparr>) covs),
        segmentCoverages := covs, userId := Some ''user''\<rparr>"

definition exampleLoad :: LoadInput where
  "exampleLoad =
     \<lparr>storedUserId = None, freshUuid = ''u1'', dataLoaded = True,
      streets = [\<lparr>osmId = 1, geometry = [\<lparr>osmLat = 0, osmLon = 0\<rparr>,
                                         \<lparr>osmLat = 1 / 111000, osmLon = 0\<rparr>]\<rparr>],
      savedIds = [], savedBadges = []\<rparr>"

definition restoreLoad :: LoadInput where
  "restoreLoad = exampleLoad\<lparr>savedIds := [99, 1]\<rparr>"

definition emptyStreetLoad :: LoadInput where
  "emptyStreetLoad =
     \<lparr>storedUserId = None, freshUuid = ''u1'', dataLoaded = True,
      streets = [\<lparr>osmId = 2, geometry = []\<rparr>], savedIds = [], savedBadges = []\<rparr>"

section \<open>The order on distances\<close>

lemma jsless_trans: "jsless a b \<Longrightarrow> jsless b c \<Longrightarrow> jsless a c"
  by (cases a; cases b; cases c) auto

lemma jsless_le_trans: "jsless a b \<Longrightarrow> \<not> jsless c b \<Longrightarrow> jsless a c"
  by (cases a; cases b; cases c) auto

lemma jsle_less_trans: "jsle a b \<Longrightarrow> \<not> jsless c b \<Longrightarrow> jsle a c"
  by (cases a; cases b; cases c) auto

lemma not_jsless_jsle: "\<not> jsless a b \<Longrightarrow> jsle b a"
  by (cases a; cases b) auto

lemma jsless_jsle: "jsless a b \<Longrightarrow> jsle a b"
  by (cases a; cases b) auto

lemma jsle_refl: "jsle a a"
  by (cases a) auto

lemma jsle_trans: "jsle a b \<Longrightarrow> jsle b c \<Longrightarrow> jsle a c"
  by (cases a; cases b; cases c) auto

lemma not_jsless_Infinity: "\<not> jsless d Infinity \<Longrightarrow> d = Infinity"
  by (cases d) auto

lemma firstMin_keep:
  assumes "firstMin ds k" "\<not> jsless d (ds ! k)"
  shows "firstMin (ds @ [d]) k"
proof -
  have k: "k < length ds" using assms(1) by (simp add: firstMin_def)
  have "jsle ((ds @ [d]) ! k) ((ds @ [d]) ! j)" if "j < length (ds @ [d])" for j
  proof (cases "j < length ds")
    case True
    then show ?thesis using assms(1) k by (simp add: firstMin_def nth_append)
  next
    case False
    then have "j = length ds" using that by simp
    then show ?thesis using k assms(2) by (simp add: nth_append not_jsless_jsle)
  qed
  moreover have "jsless ((ds @ [d]) ! k) ((ds @ [d]) ! j)" if "j < k" for j
    using that assms(1) k by (simp add: firstMin_def nth_append)
  ultimately show ?thesis using k by (simp add: firstMin_def)
qed

lemma firstMin_new:
  assumes "firstMin ds k" "jsless d (ds ! k)"
  shows "firstMin (ds @ [d]) (length ds)"
proof -
  have k: "k < length ds" using assms(1) by (simp add: firstMin_def)
  have a: "jsless d (ds ! j)" if "j < length ds" for j
  proof -
    have "jsle (ds ! k) (ds ! j)" using assms(1) that by (simp add: firstMin_def)
    then show ?thesis using assms(2) by (cases d; cases "ds ! k"; cases "ds ! j") auto
  qed
  have "jsle ((ds @ [d]) ! length ds) ((ds @ [d]) ! j)" if "j < length (ds @ [d])" for j
  proof (cases "j < length ds")
    case True
    then show ?thesis using a by (simp add: nth_append jsless_jsle)
  next
    case False
    then have "j = length ds" using that by simp
    then show ?thesis by (simp add: jsle_refl)
  qed
  moreover have "jsless ((ds @ [d]) ! length ds) ((ds @ [d]) ! j)" if "j < length ds" for j
    using that a by (simp add: nth_append)
  ultimately show ?thesis by (simp add: firstMin_def)
qed

lemma firstMin_first_finite:
  assumes "\<forall>j<length ds. ds ! j = Infinity" "jsless d Infinity"
  shows "firstMin (ds @ [d]) (length ds)"
proof -
  have "jsle ((ds @ [d]) ! length ds) ((ds @ [d]) ! j)" if "j < length (ds @ [d])" for j
  proof (cases "j < length ds")
    case True
    then show ?thesis using assms(1) by (simp add: nth_append)
  next
    case False
    then have "j = length ds" using that by simp
    then show ?thesis by (simp add: jsle_refl)
  qed
  moreover have "jsless ((ds @ [d]) ! length ds) ((ds @ [d]) ! j)" if "j < length ds" for j
    using that assms by (simp add: nth_append)
  ultimately show ?thesis by (simp add: firstMin_def)
qed

lemma projectStep_Num: "\<exists>d. projDistance (projectStep px py cosLat totalLen a b cumDist best) = Num d"
  by (cases "projDistance best") (auto simp: projectStep_def Let_def)

lemma projectLoop_Num_preserved:
  "projDistance best = Num d \<Longrightarrow> \<exists>d'. projDistance (projectLoop px py cosLat totalLen cs cumDist best) = Num d'"
proof (induction px py cosLat totalLen cs cumDist best arbitrary: d rule: projectLoop.induct)
  case (1 px py cosLat totalLen a b rest cumDist best)
  obtain d1 where "projDistance (projectStep px py cosLat totalLen a b cumDist best) = Num d1"
    using projectStep_Num by blast
  from "1.IH"[OF this] show ?case by simp
qed simp_all

lemma projectLoop_two_Num:
  assumes "2 \<le> length cs"
  shows "\<exists>d. projDistance (projectLoop px py cosLat totalLen cs cumDist best) = Num d"
proof -
  obtain a b rest where cs: "cs = a # b # rest"
    using assms by (cases cs; cases "tl cs") auto
  obtain d1 where "projDistance (projectStep px py cosLat totalLen a b cumDist best) = Num d1"
    using projectStep_Num by blast
  from projectLoop_Num_preserved[OF this] show ?thesis by (simp add: cs)
qed

lemma projectOntoLineString_Inr:
  "cs \<noteq> [] \<Longrightarrow> \<exists>p. projectOntoLineString px py cs = Inr p"
  by (cases cs) (auto simp: projectOntoLineString_def Let_def)

lemma projectOntoLineString_empty: "projectOntoLineString px py [] = Inl TypeError"
  by (simp add: projectOntoLineString_def)

lemma projectOntoLineString_single:
  "projectOntoLineString px py [c] = Inr \<lparr>projT = 0, projLon = fst c, projLat = snd c, projDistance = Infinity\<rparr>"
  by (simp add: projectOntoLineString_def)

lemma projectOntoLineString_finite:
  "2 \<le> length cs \<Longrightarrow> \<exists>p d. projectOntoLineString px py cs = Inr p \<and> projDistance p = Num d"
  using projectLoop_two_Num[of cs] by (cases cs) (auto simp: projectOntoLineString_def Let_def)

lemma projectOntoLineString_short:
  "length cs < 2 \<Longrightarrow> projectOntoLineString px py cs = Inr p \<Longrightarrow> projDistance p = Infinity"
  by (cases cs; cases "tl cs") (auto simp: projectOntoLineString_def Let_def)

section \<open>Properties of the projection and of the nearest-segment search\<close>

lemma projOf_eq: "coords cov \<noteq> [] \<Longrightarrow> projectOntoLineString lon lat (coords cov) = Inr (projOf lon lat cov)"
  using projectOntoLineString_Inr[of "coords cov" lon lat] by (auto simp: projOf_def)

lemma nearestLoop_snoc:
  "nearestLoop lon lat (xs @ [c]) i acc =
     (case nearestLoop lon lat xs i acc of Inl e \<Rightarrow> Inl e
      | Inr a \<Rightarrow> nearestLoop lon lat [c] (i + length xs) a)"
  by (induction xs arbitrary: i acc) (simp_all split: sum.splits)

lemma nearestLoop_single:
  "coords c \<noteq> [] \<Longrightarrow> nearestLoop lon lat [c] i a =
     Inr (if jsless (projDistance (projOf lon lat c)) (bestDist a) then accOf (projOf lon lat c) i else a)"
  by (simp add: projOf_eq accOf_def)

lemma jsless_Infinity: "jsless a b \<Longrightarrow> jsless a Infinity"
  by (cases a; cases b) auto

lemma nearestLoop_inv:
  assumes "\<forall>c\<in>set cs. coords c \<noteq> []"
  shows "\<exists>a. nearestLoop lon lat cs 0
             \<lparr>bestDist = Infinity, bestCov = None, bestT = 0, bestLon = lon0, bestLat = lat0\<rparr> = Inr a
           \<and> nearInv lon0 lat0 lon lat cs a"
  using assms
proof (induction cs rule: rev_induct)
  case Nil
  then show ?case by (simp add: nearInv_def)
next
  case (snoc c cs)
  let ?init = "\<lparr>bestDist = Infinity, bestCov = None, bestT = 0, bestLon = lon0, bestLat = lat0\<rparr>"
  let ?pd = "\<lambda>c. projDistance (projOf lon lat c)"
  from snoc obtain a where a: "nearestLoop lon lat cs 0 ?init = Inr a"
    and inv: "nearInv lon0 lat0 lon lat cs a" by auto
  have c: "coords c \<noteq> []" using snoc.prems by simp
  define a' where "a' = (if jsless (?pd c) (bestDist a) then accOf (projOf lon lat c) (length cs) else a)"
  have run: "nearestLoop lon lat (cs @ [c]) 0 ?init = Inr a'"
    by (simp add: nearestLoop_snoc a nearestLoop_single[OF c] a'_def del: nearestLoop.simps)
  have map_snoc: "map ?pd (cs @ [c]) = map ?pd cs @ [?pd c]" by simp
  have "nearInv lon0 lat0 lon lat (cs @ [c]) a'"
  proof (cases "jsless (?pd c) (bestDist a)")
    case True
    then have a'eq: "a' = accOf (projOf lon lat ((cs @ [c]) ! length cs)) (length cs)"
      by (simp add: a'_def)
    have fin: "jsless (?pd ((cs @ [c]) ! length cs)) Infinity"
      using True jsless_Infinity by simp
    have "firstMin (map ?pd (cs @ [c])) (length cs)"
      using inv unfolding nearInv_def
    proof
      assume h: "a = ?init \<and> (\<forall>j<length cs. ?pd (cs ! j) = Infinity)"
      then have "jsless (?pd c) Infinity" using True by simp
      from firstMin_first_finite[of "map ?pd cs", OF _ this] h
      show ?thesis unfolding map_snoc by simp
    next
      assume "\<exists>k. firstMin (map ?pd cs) k \<and> jsless (?pd (cs ! k)) Infinity
                 \<and> a = accOf (projOf lon lat (cs ! k)) k"
      then obtain k where k: "firstMin (map ?pd cs) k" and ak: "a = accOf (projOf lon lat (cs ! k)) k"
        by blast
      have "k < length cs" using k by (simp add: firstMin_def)
      then have "jsless (?pd c) (map ?pd cs ! k)" using True ak by (simp add: accOf_def)
      from firstMin_new[OF k this] show ?thesis unfolding map_snoc by simp
    qed
    then show ?thesis unfolding nearInv_def using a'eq fin by blast
  next
    case False
    then have a'eq: "a' = a" by (simp add: a'_def)
    show ?thesis using inv unfolding nearInv_def
    proof
      assume h: "a = ?init \<and> (\<forall>j<length cs. ?pd (cs ! j) = Infinity)"
      then have "?pd c = Infinity" using False not_jsless_Infinity by simp
      then have "\<forall>j<length (cs @ [c]). ?pd ((cs @ [c]) ! j) = Infinity"
        using h by (auto simp: nth_append less_Suc_eq)
      then show "(a' = ?init \<and> (\<forall>j<length (cs @ [c]). ?pd ((cs @ [c]) ! j) = Infinity))
         \<or> (\<exists>k. firstMin (map ?pd (cs @ [c])) k \<and> jsless (?pd ((cs @ [c]) ! k)) Infinity
               \<and> a' = accOf (projOf lon lat ((cs @ [c]) ! k)) k)"
        using h a'eq by blast
    next
      assume "\<exists>k. firstMin (map ?pd cs) k \<and> jsless (?pd (cs ! k)) Infinity
                 \<and> a = accOf (projOf lon lat (cs ! k)) k"
      then obtain k where k: "firstMin (map ?pd cs) k" and ak: "a = accOf (projOf lon lat (cs ! k)) k"
        and fin: "jsless (?pd (cs ! k)) Infinity"
        by blast
      have kl: "k < length cs" using k by (simp add: firstMin_def)
      then have "\<not> jsless (?pd c) (map ?pd cs ! k)" using False ak by (simp add: accOf_def)
      from firstMin_keep[OF k this] have "firstMin (map ?pd (cs @ [c])) k" unfolding map_snoc by simp
      moreover have "a' = accOf (projOf lon lat ((cs @ [c]) ! k)) k"
        using a'eq ak kl by (simp add: nth_append)
      moreover have "jsless (?pd ((cs @ [c]) ! k)) Infinity" using fin kl by (simp add: nth_append)
      ultimately show "(a' = ?init \<and> (\<forall>j<length (cs @ [c]). ?pd ((cs @ [c]) ! j) = Infinity))
         \<or> (\<exists>k. firstMin (map ?pd (cs @ [c])) k \<and> jsless (?pd ((cs @ [c]) ! k)) Infinity
               \<and> a' = accOf (projOf lon lat ((cs @ [c]) ! k)) k)"
        by blast
    qed
  qed
  then show ?case using run by blast
qed

lemma all_short_iff_Infinity:
  assumes "\<forall>c\<in>set cs. coords c \<noteq> []"
  shows "(\<forall>c\<in>set cs. length (coords c) < 2) \<longleftrightarrow>
         (\<forall>j<length cs. projDistance (projOf lon lat (cs ! j)) = Infinity)"
proof
  assume s: "\<forall>c\<in>set cs. length (coords c) < 2"
  show "\<forall>j<length cs. projDistance (projOf lon lat (cs ! j)) = Infinity"
  proof (intro allI impI)
    fix j assume j: "j < length cs"
    then have m: "cs ! j \<in> set cs" by simp
    then have "length (coords (cs ! j)) < 2" "coords (cs ! j) \<noteq> []" using s assms by auto
    then show "projDistance (projOf lon lat (cs ! j)) = Infinity"
      using projectOntoLineString_short[of "coords (cs ! j)" lon lat "projOf lon lat (cs ! j)"]
      by (simp add: projOf_eq)
  qed
next
  assume i: "\<forall>j<length cs. projDistance (projOf lon lat (cs ! j)) = Infinity"
  show "\<forall>c\<in>set cs. length (coords c) < 2"
  proof
    fix c assume "c \<in> set cs"
    then obtain j where j: "j < length cs" "cs ! j = c" by (auto simp: in_set_conv_nth)
    show "length (coords c) < 2"
    proof (rule ccontr)
      assume "\<not> length (coords c) < 2"
      then have "2 \<le> length (coords c)" by simp
      from projectOntoLineString_finite[OF this, of lon lat]
      obtain p d where "projectOntoLineString lon lat (coords c) = Inr p" "projDistance p = Num d"
        by blast
      then have "projDistance (projOf lon lat c) = Num d" by (simp add: projOf_def)
      then show False using i j by auto
    qed
  qed
qed

text \<open>
  C1 (as amended). For every fix and every list of coverage entries that each have
  at least one vertex, \<open>findNearestSegment\<close> returns; it returns none exactly when no
  entry has two or more vertices (in particular for the empty list), and otherwise the
  entry it returns is in the list, carries the result of \<open>projectOntoLineString\<close> on
  its coordinates, has a distance no greater than that of any entry (validated or
  not), and a distance strictly smaller than that of every entry before it: the first
  entry at the global minimum.
\<close>

theorem findNearestSegment_first_minimum:
  assumes "\<forall>c\<in>set coverages. coords c \<noteq> []"
  shows "\<exists>r. findNearestSegment lon lat coverages = Inr r
           \<and> (r = None \<longleftrightarrow> (\<forall>c\<in>set coverages. length (coords c) < 2))
           \<and> (\<forall>n. r = Some n \<longrightarrow>
                 nearCoverage n < length coverages
               \<and> projectOntoLineString lon lat (coords (coverages ! nearCoverage n))
                   = Inr \<lparr>projT = nearT n, projLon = snappedLon n, projLat = snappedLat n,
                          projDistance = nearDistance n\<rparr>
               \<and> (\<forall>j<length coverages. \<forall>p.
                     projectOntoLineString lon lat (coords (coverages ! j)) = Inr p
                       \<longrightarrow> jsle (nearDistance n) (projDistance p))
               \<and> (\<forall>j<nearCoverage n. \<forall>p.
                     projectOntoLineString lon lat (coords (coverages ! j)) = Inr p
                       \<longrightarrow> jsless (nearDistance n) (projDistance p)))"
proof -
  let ?init = "\<lparr>bestDist = Infinity, bestCov = None, bestT = 0, bestLon = lon, bestLat = lat\<rparr>"
  let ?pd = "\<lambda>c. projDistance (projOf lon lat c)"
  from nearestLoop_inv[OF assms, of lon lat lon lat]
  obtain a where a: "nearestLoop lon lat coverages 0 ?init = Inr a"
    and inv: "nearInv lon lat lon lat coverages a" by blast
  have pj: "projectOntoLineString lon lat (coords (coverages ! j)) = Inr (projOf lon lat (coverages ! j))"
    if "j < length coverages" for j
    using that assms by (simp add: projOf_eq)
  from inv show ?thesis unfolding nearInv_def
  proof
    assume h: "a = ?init \<and> (\<forall>j<length coverages. ?pd (coverages ! j) = Infinity)"
    then have short: "\<forall>c\<in>set coverages. length (coords c) < 2"
      using all_short_iff_Infinity[OF assms, of lon lat] by simp
    have "findNearestSegment lon lat coverages = Inr None"
      using a h by (simp add: findNearestSegment_def)
    then show ?thesis using short by simp
  next
    assume "\<exists>k. firstMin (map ?pd coverages) k \<and> jsless (?pd (coverages ! k)) Infinity
               \<and> a = accOf (projOf lon lat (coverages ! k)) k"
    then obtain k where fm: "firstMin (map ?pd coverages) k"
      and fin: "jsless (?pd (coverages ! k)) Infinity"
      and ak: "a = accOf (projOf lon lat (coverages ! k)) k" by blast
    have kl: "k < length coverages" using fm by (simp add: firstMin_def)
    define n where "n = \<lparr>nearCoverage = k, nearT = projT (projOf lon lat (coverages ! k)),
        snappedLon = projLon (projOf lon lat (coverages ! k)),
        snappedLat = projLat (projOf lon lat (coverages ! k)),
        nearDistance = ?pd (coverages ! k)\<rparr>"
    have res: "findNearestSegment lon lat coverages = Inr (Some n)"
      using a ak kl by (auto simp: findNearestSegment_def accOf_def n_def)
    have notshort: "\<not> (\<forall>c\<in>set coverages. length (coords c) < 2)"
    proof
      assume "\<forall>c\<in>set coverages. length (coords c) < 2"
      then have "?pd (coverages ! k) = Infinity"
        using all_short_iff_Infinity[OF assms, of lon lat] kl by simp
      then show False using fin by simp
    qed
    have p1: "nearCoverage n < length coverages" using kl by (simp add: n_def)
    have p2: "projectOntoLineString lon lat (coords (coverages ! nearCoverage n))
                   = Inr \<lparr>projT = nearT n, projLon = snappedLon n, projLat = snappedLat n,
                          projDistance = nearDistance n\<rparr>"
      using pj[OF kl] by (simp add: n_def)
    have p3: "\<forall>j<length coverages. \<forall>p.
                     projectOntoLineString lon lat (coords (coverages ! j)) = Inr p
                       \<longrightarrow> jsle (nearDistance n) (projDistance p)"
    proof (intro allI impI)
      fix j p assume j: "j < length coverages"
        and p: "projectOntoLineString lon lat (coords (coverages ! j)) = Inr p"
      have "p = projOf lon lat (coverages ! j)" using pj[OF j] p by simp
      moreover have "jsle (?pd (coverages ! k)) (?pd (coverages ! j))"
        using fm j kl by (simp add: firstMin_def)
      ultimately show "jsle (nearDistance n) (projDistance p)" using j kl by (simp add: n_def)
    qed
    have p4: "\<forall>j<nearCoverage n. \<forall>p.
                     projectOntoLineString lon lat (coords (coverages ! j)) = Inr p
                       \<longrightarrow> jsless (nearDistance n) (projDistance p)"
    proof (intro allI impI)
      fix j p assume j: "j < nearCoverage n"
        and p: "projectOntoLineString lon lat (coords (coverages ! j)) = Inr p"
      have jk: "j < k" using j by (simp add: n_def)
      then have jl: "j < length coverages" using kl by simp
      have "p = projOf lon lat (coverages ! j)" using pj[OF jl] p by simp
      moreover have "jsless (?pd (coverages ! k)) (?pd (coverages ! j))"
        using fm jk jl kl by (simp add: firstMin_def)
      ultimately show "jsless (nearDistance n) (projDistance p)" using jl kl by (simp add: n_def)
    qed
    show ?thesis
    proof (intro exI[of _ "Some n"] conjI)
      show "findNearestSegment lon lat coverages = Inr (Some n)" by (rule res)
      show "(Some n = None) = (\<forall>c\<in>set coverages. length (coords c) < 2)" using notshort by simp
      show "\<forall>m. Some n = Some m \<longrightarrow>
                 nearCoverage m < length coverages
               \<and> projectOntoLineString lon lat (coords (coverages ! nearCoverage m))
                   = Inr \<lparr>projT = nearT m, projLon = snappedLon m, projLat = snappedLat m,
                          projDistance = nearDistance m\<rparr>
               \<and> (\<forall>j<length coverages. \<forall>p.
                     projectOntoLineString lon lat (coords (coverages ! j)) = Inr p
                       \<longrightarrow> jsle (nearDistance m) (projDistance p))
               \<and> (\<forall>j<nearCoverage m. \<forall>p.
                     projectOntoLineString lon lat (coords (coverages ! j)) = Inr p
                       \<longrightarrow> jsless (nearDistance m) (projDistance p))"
        using p1 p2 p3 p4 by blast
    qed
  qed
qed

theorem findNearestSegment_first_minimum_witness:
  "coords degenerateStreet \<noteq> [] \<and> coords straightStreet \<noteq> []
   \<and> (\<exists>n. findNearestSegment 0 0 [degenerateStreet, straightStreet] = Inr (Some n)
          \<and> nearCoverage n < 2)"
  using findNearestSegment_first_minimum [of "[degenerateStreet, straightStreet]" 0 0]
  by (auto simp: degenerateStreet_def straightStreet_def)

text \<open>
  C1 as stated fails on a non-empty list whose only entry has a single vertex: the
  projection distance stays \<open>Infinity\<close>, no entry wins, and the result is none.
\<close>

theorem findNearestSegment_nonempty_none:
  "[degenerateStreet] \<noteq> [] \<and> findNearestSegment 0 0 [degenerateStreet] = Inr None"
  by (simp add: findNearestSegment_def degenerateStreet_def projectOntoLineString_def)

section \<open>Evaluation on the example streets\<close>

lemma segLength_axis:
  "segLength 1 (0, 0) (0, 1) = 111000"
  by (simp add: segLength_def)

lemma project_straight_origin:
  "projectOntoLineString 0 0 [(0, 0), (0, 1)]
     = Inr \<lparr>projT = 0, projLon = 0, projLat = 0, projDistance = Num 0\<rparr>"
  by (simp add: projectOntoLineString_def projectStep_def Let_def segLength_axis)

lemma project_single_origin:
  "projectOntoLineString 0 0 [(0, 0)]
     = Inr \<lparr>projT = 0, projLon = 0, projLat = 0, projDistance = Infinity\<rparr>"
  by (simp add: projectOntoLineString_def)



section \<open>Properties of the steps of the fix handler\<close>

lemma storePosition_fields [simp]:
  "segmentCoverages (storePosition lon lat s) = segmentCoverages s"
  "validatedWayIds (storePosition lon lat s) = validatedWayIds s"
  "unlockedBadges (storePosition lon lat s) = unlockedBadges s"
  "badgeQueue (storePosition lon lat s) = badgeQueue s"
  "currentBadge (storePosition lon lat s) = currentBadge s"
  "savedCount (storePosition lon lat s) = savedCount s"
  "saves (storePosition lon lat s) = saves s"
  "userId (storePosition lon lat s) = userId s"
  "geojson (storePosition lon lat s) = geojson s"
  "city (storePosition lon lat s) = city s"
  "exploredSource (storePosition lon lat s) = exploredSource s"
  "progressSource (storePosition lon lat s) = progressSource s"
  "exploredCount (storePosition lon lat s) = exploredCount s"
  by (simp_all add: storePosition_def)

lemma markSample_fields:
  "validated (fst (markSample snLon snLat smp i st)) = validated (fst st)"
  "wayId (fst (markSample snLon snLat smp i st)) = wayId (fst st)"
  "coords (fst (markSample snLon snLat smp i st)) = coords (fst st)"
  "samples (fst (markSample snLon snLat smp i st)) = samples (fst st)"
  by (simp_all add: markSample_def Let_def)

lemma markLoop_fields:
  "validated (fst (markLoop snLon snLat smps i st)) = validated (fst st)
   \<and> wayId (fst (markLoop snLon snLat smps i st)) = wayId (fst st)
   \<and> coords (fst (markLoop snLon snLat smps i st)) = coords (fst st)
   \<and> samples (fst (markLoop snLon snLat smps i st)) = samples (fst st)"
  by (induction smps arbitrary: i st) (simp_all add: markSample_fields)

lemma markSample_untouched:
  "\<not> snd (markSample snLon snLat smp i st) \<Longrightarrow> markSample snLon snLat smp i st = st"
  by (simp add: markSample_def Let_def split: if_splits)

lemma markSample_touched_mono:
  "snd st \<Longrightarrow> snd (markSample snLon snLat smp i st)"
  by (simp add: markSample_def Let_def)

lemma markLoop_touched_mono:
  "snd st \<Longrightarrow> snd (markLoop snLon snLat smps i st)"
  by (induction smps arbitrary: i st) (simp_all add: markSample_touched_mono)

lemma markLoop_untouched:
  "\<not> snd (markLoop snLon snLat smps i st) \<Longrightarrow> markLoop snLon snLat smps i st = st"
proof (induction smps arbitrary: i st)
  case Nil
  then show ?case by simp
next
  case (Cons smp rest)
  have a: "\<not> snd (markSample snLon snLat smp i st)"
  proof
    assume "snd (markSample snLon snLat smp i st)"
    from markLoop_touched_mono[OF this, of snLon snLat rest "Suc i"] Cons.prems
    show False by simp
  qed
  then have "markSample snLon snLat smp i st = st" by (rule markSample_untouched)
  then show ?case using Cons by simp
qed

lemma announceBadges_fields [simp]:
  "segmentCoverages (announceBadges nbs s) = segmentCoverages s"
  "validatedWayIds (announceBadges nbs s) = validatedWayIds s"
  "savedCount (announceBadges nbs s) = savedCount s"
  "saves (announceBadges nbs s) = saves s"
  "userId (announceBadges nbs s) = userId s"
  "geojson (announceBadges nbs s) = geojson s"
  "city (announceBadges nbs s) = city s"
  "exploredSource (announceBadges nbs s) = exploredSource s"
  "progressSource (announceBadges nbs s) = progressSource s"
  "exploredCount (announceBadges nbs s) = exploredCount s"
  "unlockedBadges (announceBadges nbs s) = fold (\<lambda>b u. setAdd (badgeId b) u) nbs (unlockedBadges s)"
  by (simp_all add: announceBadges_def Let_def split: list.splits)

lemma saveBatch_fields [simp]:
  "segmentCoverages (saveBatch fs s) = segmentCoverages s"
  "validatedWayIds (saveBatch fs s) = validatedWayIds s"
  "unlockedBadges (saveBatch fs s) = unlockedBadges s"
  "badgeQueue (saveBatch fs s) = badgeQueue s"
  "currentBadge (saveBatch fs s) = currentBadge s"
  "userId (saveBatch fs s) = userId s"
  "geojson (saveBatch fs s) = geojson s"
  "city (saveBatch fs s) = city s"
  "exploredSource (saveBatch fs s) = exploredSource s"
  "progressSource (saveBatch fs s) = progressSource s"
  "exploredCount (saveBatch fs s) = exploredCount s"
  by (simp_all add: saveBatch_def Let_def split: option.splits)

lemma validateSegment_fields:
  "segmentCoverages (validateSegment fs idx cov s)
     = (segmentCoverages s)[idx := cov\<lparr>validated := True\<rparr>]"
  "validatedWayIds (validateSegment fs idx cov s) = setAdd (wayId cov) (validatedWayIds s)"
  "userId (validateSegment fs idx cov s) = userId s"
  "geojson (validateSegment fs idx cov s) = geojson s"
  "city (validateSegment fs idx cov s) = city s"
  "progressSource (validateSegment fs idx cov s) = progressSource s"
  by (simp_all add: validateSegment_def Let_def)

lemma validateSegment_unlocked:
  "unlockedBadges (validateSegment fs idx cov s)
     = fold (\<lambda>b u. setAdd (badgeId b) u)
         (newBadges (unlockedBadges s) (length (setAdd (wayId cov) (validatedWayIds s))))
         (unlockedBadges s)"
  by (simp add: validateSegment_def Let_def)

lemma coverNearest_validated:
  "validated (segmentCoverages s ! nearCoverage n) \<Longrightarrow> coverNearest fs n s = s"
  by (simp add: coverNearest_def Let_def)

lemma coverNearest_coverages:
  "\<exists>c. segmentCoverages (coverNearest fs n s) = (segmentCoverages s)[nearCoverage n := c]
     \<and> wayId c = wayId (segmentCoverages s ! nearCoverage n)"
proof (cases "validated (segmentCoverages s ! nearCoverage n)")
  case True
  then have "coverNearest fs n s = s" by (rule coverNearest_validated)
  then have "segmentCoverages (coverNearest fs n s)
      = (segmentCoverages s)[nearCoverage n := segmentCoverages s ! nearCoverage n]" by simp
  then show ?thesis by blast
next
  case False
  define cov where "cov = segmentCoverages s ! nearCoverage n"
  define marked where "marked = markLoop (snappedLon n) (snappedLat n) (samples cov) 0 (cov, False)"
  have w: "wayId (fst marked) = wayId cov" using markLoop_fields[of _ _ _ _ "(cov, False)"]
    by (simp add: marked_def)
  have "segmentCoverages (coverNearest fs n s) = (segmentCoverages s)[nearCoverage n := fst marked]
      \<or> segmentCoverages (coverNearest fs n s)
          = (segmentCoverages s)[nearCoverage n := (fst marked)\<lparr>validated := True\<rparr>]"
    using False
    by (simp add: coverNearest_def Let_def cov_def[symmetric] marked_def[symmetric]
        validateSegment_fields)
  then show ?thesis
  proof
    assume "segmentCoverages (coverNearest fs n s) = (segmentCoverages s)[nearCoverage n := fst marked]"
    then show ?thesis using w cov_def by blast
  next
    assume a: "segmentCoverages (coverNearest fs n s)
          = (segmentCoverages s)[nearCoverage n := (fst marked)\<lparr>validated := True\<rparr>]"
    have "wayId ((fst marked)\<lparr>validated := True\<rparr>) = wayId cov" using w by simp
    then show ?thesis using a cov_def by blast
  qed
qed


lemma updatePosition_shape:
  "stateOf (updatePosition ready lon lat s) = s
   \<or> stateOf (updatePosition ready lon lat s) = storePosition lon lat s
   \<or> (\<exists>fs n. ready \<and> geojson s = Some fs \<and> segmentCoverages s \<noteq> []
         \<and> findNearestSegment lon lat (segmentCoverages s) = Inr (Some n)
         \<and> \<not> jsless (Num MAP_MATCH_MAX_DIST) (nearDistance n)
         \<and> stateOf (updatePosition ready lon lat s) = coverNearest fs n (storePosition lon lat s))"
  by (auto simp: updatePosition_def Let_def split: option.splits sum.splits)

lemma updatePosition_not_loaded:
  "geojson s = None \<or> segmentCoverages s = [] \<or> \<not> ready
     \<Longrightarrow> updatePosition ready lon lat s = Returned s"
  by (auto simp: updatePosition_def split: option.splits)

lemma coverNearest_frame:
  "length (segmentCoverages (coverNearest fs n s)) = length (segmentCoverages s)"
  "j \<noteq> nearCoverage n \<Longrightarrow> segmentCoverages (coverNearest fs n s) ! j = segmentCoverages s ! j"
  using coverNearest_coverages[of fs n s] by auto

lemma updatePosition_length:
  "length (segmentCoverages (stateOf (updatePosition ready lon lat s))) = length (segmentCoverages s)"
  using updatePosition_shape[of ready lon lat s] by (auto simp: coverNearest_frame)

lemma updatePosition_validated_entry:
  assumes "validated (segmentCoverages s ! i)"
  shows "segmentCoverages (stateOf (updatePosition ready lon lat s)) ! i = segmentCoverages s ! i"
proof -
  from updatePosition_shape[of ready lon lat s]
  consider "stateOf (updatePosition ready lon lat s) = s"
    | "stateOf (updatePosition ready lon lat s) = storePosition lon lat s"
    | fs n where "stateOf (updatePosition ready lon lat s) = coverNearest fs n (storePosition lon lat s)"
    by blast
  then show ?thesis
  proof cases
    case 1 then show ?thesis by simp
  next
    case 2 then show ?thesis by simp
  next
    case 3
    show ?thesis
    proof (cases "i = nearCoverage n")
      case True
      then have "coverNearest fs n (storePosition lon lat s) = storePosition lon lat s"
        using assms by (simp add: coverNearest_validated)
      then show ?thesis using 3 by simp
    next
      case False
      then show ?thesis using 3 by (simp add: coverNearest_frame)
    qed
  qed
qed

lemma processFixes_validated_entry:
  "validated (segmentCoverages s ! i)
     \<Longrightarrow> segmentCoverages (processFixes fxs s) ! i = segmentCoverages s ! i"
proof (induction fxs arbitrary: s)
  case Nil
  then show ?case by simp
next
  case (Cons f fxs)
  let ?s1 = "stateOf (updatePosition (fst f) (fst (snd f)) (snd (snd f)) s)"
  have e: "segmentCoverages ?s1 ! i = segmentCoverages s ! i"
    using Cons.prems by (rule updatePosition_validated_entry)
  then have "validated (segmentCoverages ?s1 ! i)" using Cons.prems by simp
  from Cons.IH[OF this] e show ?case by simp
qed

section \<open>Validated entries are terminal\<close>

text \<open>
  C3. Once the entry at index \<open>i\<close> is validated, processing any sequence of further
  fixes leaves the whole entry (covered array, \<open>minCoveredT\<close>, \<open>maxCoveredT\<close>,
  validated flag and the rest) unchanged. A fix whose nearest match is that entry
  returns right after storing the position: coverage entries, validated set, unlocked
  badges, badge queue, current badge, saved count, emitted saves and both map sources
  are what they were, so no milestone is enqueued again.
\<close>

theorem validated_entry_is_terminal:
  assumes "i < length (segmentCoverages s)" and "validated (segmentCoverages s ! i)"
  shows "segmentCoverages (processFixes fxs s) ! i = segmentCoverages s ! i
       \<and> (findNearestSegment lon lat (segmentCoverages s) = Inr (Some n) \<and> nearCoverage n = i
            \<longrightarrow> (\<exists>s'. updatePosition ready lon lat s = Returned s'
                  \<and> s' = (if ready \<and> geojson s \<noteq> None then storePosition lon lat s else s)
                  \<and> segmentCoverages s' = segmentCoverages s
                  \<and> validatedWayIds s' = validatedWayIds s
                  \<and> unlockedBadges s' = unlockedBadges s
                  \<and> badgeQueue s' = badgeQueue s
                  \<and> currentBadge s' = currentBadge s
                  \<and> savedCount s' = savedCount s
                  \<and> saves s' = saves s
                  \<and> exploredSource s' = exploredSource s
                  \<and> progressSource s' = progressSource s
                  \<and> exploredCount s' = exploredCount s))"
proof (intro conjI impI)
  show "segmentCoverages (processFixes fxs s) ! i = segmentCoverages s ! i"
    using assms(2) by (rule processFixes_validated_entry)
next
  assume h: "findNearestSegment lon lat (segmentCoverages s) = Inr (Some n) \<and> nearCoverage n = i"
  have ne: "segmentCoverages s \<noteq> []" using assms(1) by auto
  have cn: "coverNearest fs n (storePosition lon lat s) = storePosition lon lat s" for fs
    using assms(2) h by (simp add: coverNearest_validated)
  have "updatePosition ready lon lat s
          = Returned (if ready \<and> geojson s \<noteq> None then storePosition lon lat s else s)"
    using h ne cn by (auto simp: updatePosition_def Let_def split: option.splits)
  then show "\<exists>s'. updatePosition ready lon lat s = Returned s'
                  \<and> s' = (if ready \<and> geojson s \<noteq> None then storePosition lon lat s else s)
                  \<and> segmentCoverages s' = segmentCoverages s
                  \<and> validatedWayIds s' = validatedWayIds s
                  \<and> unlockedBadges s' = unlockedBadges s
                  \<and> badgeQueue s' = badgeQueue s
                  \<and> currentBadge s' = currentBadge s
                  \<and> savedCount s' = savedCount s
                  \<and> saves s' = saves s
                  \<and> exploredSource s' = exploredSource s
                  \<and> progressSource s' = progressSource s
                  \<and> exploredCount s' = exploredCount s"
    by simp
qed

theorem validated_entry_is_terminal_witness:
  "0 < length (segmentCoverages (exampleEngine [validatedStreet]))
   \<and> validated (segmentCoverages (exampleEngine [validatedStreet]) ! 0)
   \<and> findNearestSegment 0 0 (segmentCoverages (exampleEngine [validatedStreet]))
       = Inr (Some \<lparr>nearCoverage = 0, nearT = 0, snappedLon = 0, snappedLat = 0,
                     nearDistance = Num 0\<rparr>)
   \<and> segmentCoverages (processFixes [(True, 0, 0), (True, 0, 1)] (exampleEngine [validatedStreet])) ! 0
       = validatedStreet
   \<and> updatePosition True 0 0 (exampleEngine [validatedStreet])
       = Returned (storePosition 0 0 (exampleEngine [validatedStreet]))"
proof -
  let ?s = "exampleEngine [validatedStreet]"
  let ?n = "\<lparr>nearCoverage = 0, nearT = 0, snappedLon = 0, snappedLat = 0, nearDistance = Num 0\<rparr>"
  have h1: "0 < length (segmentCoverages ?s)" by (simp add: exampleEngine_def)
  have h2: "validated (segmentCoverages ?s ! 0)"
    by (simp add: exampleEngine_def validatedStreet_def)
  have h3: "findNearestSegment 0 0 (segmentCoverages ?s) = Inr (Some ?n)"
    by (simp add: exampleEngine_def validatedStreet_def straightStreet_def
        findNearestSegment_def project_straight_origin)
  have g: "geojson ?s \<noteq> None" by (simp add: exampleEngine_def)
  have c: "segmentCoverages ?s ! 0 = validatedStreet" by (simp add: exampleEngine_def)
  from validated_entry_is_terminal[OF h1 h2, of "[(True, 0, 0), (True, 0, 1)]" 0 0 ?n True]
    h1 h2 h3 g c
  show ?thesis by auto
qed


section \<open>A fix mutates at most the nearest entry\<close>

text \<open>
  C10. Processing one fix keeps the number of coverage entries. When the nearest
  match is within the ceiling of 50 metres, every entry other than the match is
  unchanged; when the match is farther than the ceiling, when there is no match, or
  when the search fails, no entry changes at all; and a fix that arrives before the
  streets are loaded leaves the whole state unchanged.
\<close>

theorem fix_mutates_at_most_nearest:
  "length (segmentCoverages (stateOf (updatePosition ready lon lat s))) = length (segmentCoverages s)
   \<and> (case findNearestSegment lon lat (segmentCoverages s) of
        Inr (Some n) \<Rightarrow>
          (if jsless (Num MAP_MATCH_MAX_DIST) (nearDistance n)
           then segmentCoverages (stateOf (updatePosition ready lon lat s)) = segmentCoverages s
           else (\<forall>j. j \<noteq> nearCoverage n \<longrightarrow>
                   segmentCoverages (stateOf (updatePosition ready lon lat s)) ! j
                     = segmentCoverages s ! j))
      | Inr None \<Rightarrow> segmentCoverages (stateOf (updatePosition ready lon lat s)) = segmentCoverages s
      | Inl e \<Rightarrow> segmentCoverages (stateOf (updatePosition ready lon lat s)) = segmentCoverages s)
   \<and> (geojson s = None \<or> segmentCoverages s = []
        \<longrightarrow> updatePosition ready lon lat s = Returned s)"
proof (intro conjI)
  show "length (segmentCoverages (stateOf (updatePosition ready lon lat s))) = length (segmentCoverages s)"
    by (rule updatePosition_length)
next
  show "geojson s = None \<or> segmentCoverages s = [] \<longrightarrow> updatePosition ready lon lat s = Returned s"
    using updatePosition_not_loaded by blast
next
  from updatePosition_shape[of ready lon lat s]
  consider "segmentCoverages (stateOf (updatePosition ready lon lat s)) = segmentCoverages s"
    | fs n where "findNearestSegment lon lat (segmentCoverages s) = Inr (Some n)"
        "\<not> jsless (Num MAP_MATCH_MAX_DIST) (nearDistance n)"
        "stateOf (updatePosition ready lon lat s) = coverNearest fs n (storePosition lon lat s)"
    by auto
  then show "case findNearestSegment lon lat (segmentCoverages s) of
        Inr (Some n) \<Rightarrow>
          (if jsless (Num MAP_MATCH_MAX_DIST) (nearDistance n)
           then segmentCoverages (stateOf (updatePosition ready lon lat s)) = segmentCoverages s
           else (\<forall>j. j \<noteq> nearCoverage n \<longrightarrow>
                   segmentCoverages (stateOf (updatePosition ready lon lat s)) ! j
                     = segmentCoverages s ! j))
      | Inr None \<Rightarrow> segmentCoverages (stateOf (updatePosition ready lon lat s)) = segmentCoverages s
      | Inl e \<Rightarrow> segmentCoverages (stateOf (updatePosition ready lon lat s)) = segmentCoverages s"
  proof cases
    case 1
    then show ?thesis by (simp split: sum.splits option.splits)
  next
    case 2
    then show ?thesis by (simp add: coverNearest_frame)
  qed
qed


theorem fix_mutates_at_most_nearest_witness:
  "findNearestSegment 0 0 (segmentCoverages (exampleEngine [straightStreet, degenerateStreet]))
       = Inr (Some \<lparr>nearCoverage = 0, nearT = 0, snappedLon = 0, snappedLat = 0,
                     nearDistance = Num 0\<rparr>)
   \<and> segmentCoverages (stateOf (updatePosition True 0 0
         (exampleEngine [straightStreet, degenerateStreet]))) ! 1 = degenerateStreet
   \<and> geojson (initEngine ''Marly-le-Roi'') = None
   \<and> updatePosition True 0 0 (initEngine ''Marly-le-Roi'') = Returned (initEngine ''Marly-le-Roi'')"
proof -
  let ?s = "exampleEngine [straightStreet, degenerateStreet]"
  let ?n = "\<lparr>nearCoverage = 0, nearT = 0, snappedLon = 0, snappedLat = 0, nearDistance = Num 0\<rparr>"
  have h: "findNearestSegment 0 0 (segmentCoverages ?s) = Inr (Some ?n)"
    by (simp add: exampleEngine_def degenerateStreet_def straightStreet_def
        findNearestSegment_def project_straight_origin project_single_origin)
  have c: "segmentCoverages ?s ! 1 = degenerateStreet" by (simp add: exampleEngine_def)
  have g: "geojson (initEngine ''Marly-le-Roi'') = None" by (simp add: initEngine_def)
  from fix_mutates_at_most_nearest[of True 0 0 ?s] h c
  have "segmentCoverages (stateOf (updatePosition True 0 0 ?s)) ! 1 = degenerateStreet"
    by (simp add: MAP_MATCH_MAX_DIST_def)
  moreover from fix_mutates_at_most_nearest[of True 0 0 "initEngine ''Marly-le-Roi''"] g
  have "updatePosition True 0 0 (initEngine ''Marly-le-Roi'') = Returned (initEngine ''Marly-le-Roi'')"
    by simp
  ultimately show ?thesis using h g by simp
qed

section \<open>Monotone sets and the validation threshold\<close>

lemma setAdd_set: "set (setAdd x xs) = insert x (set xs)"
  by (auto simp: setAdd_def)

lemma setAdd_length: "length xs \<le> length (setAdd x xs)"
  by (simp add: setAdd_def)

lemma setAdd_distinct: "distinct xs \<Longrightarrow> distinct (setAdd x xs)"
  by (simp add: setAdd_def)

lemma fold_setAdd_mono:
  "set xs \<subseteq> set (fold (\<lambda>b u. setAdd (f b) u) nbs xs)
   \<and> length xs \<le> length (fold (\<lambda>b u. setAdd (f b) u) nbs xs)"
proof (induction nbs arbitrary: xs)
  case Nil
  then show ?case by simp
next
  case (Cons b nbs)
  have "set xs \<subseteq> set (setAdd (f b) xs)" "length xs \<le> length (setAdd (f b) xs)"
    by (auto simp: setAdd_set setAdd_length)
  with Cons[of "setAdd (f b) xs"] show ?case by auto
qed

lemma coverNearest_mono:
  "set (validatedWayIds s) \<subseteq> set (validatedWayIds (coverNearest fs n s))
   \<and> length (validatedWayIds s) \<le> length (validatedWayIds (coverNearest fs n s))
   \<and> set (unlockedBadges s) \<subseteq> set (unlockedBadges (coverNearest fs n s))
   \<and> length (unlockedBadges s) \<le> length (unlockedBadges (coverNearest fs n s))"
  using fold_setAdd_mono[of "unlockedBadges s" badgeId]
  by (auto simp: coverNearest_def Let_def validateSegment_fields validateSegment_unlocked
      setAdd_set setAdd_length)

lemma updatePosition_mono:
  "set (validatedWayIds s) \<subseteq> set (validatedWayIds (stateOf (updatePosition ready lon lat s)))
   \<and> length (validatedWayIds s) \<le> length (validatedWayIds (stateOf (updatePosition ready lon lat s)))
   \<and> set (unlockedBadges s) \<subseteq> set (unlockedBadges (stateOf (updatePosition ready lon lat s)))
   \<and> length (unlockedBadges s) \<le> length (unlockedBadges (stateOf (updatePosition ready lon lat s)))"
proof -
  from updatePosition_shape[of ready lon lat s]
  consider "stateOf (updatePosition ready lon lat s) = s"
    | "stateOf (updatePosition ready lon lat s) = storePosition lon lat s"
    | fs n where "stateOf (updatePosition ready lon lat s) = coverNearest fs n (storePosition lon lat s)"
    by blast
  then show ?thesis
  proof cases
    case 1 then show ?thesis by simp
  next
    case 2 then show ?thesis by simp
  next
    case 3
    then show ?thesis using coverNearest_mono[of "storePosition lon lat s" fs n] by simp
  qed
qed

text \<open>
  C4. For every sequence of fixes processed from any state, the validated-way-id set
  and the unlocked-badge set after the sequence contain the sets before it, so their
  sizes are greater than or equal to the sizes before. (A JavaScript \<open>Set\<close> is the
  list of its distinct elements: its size is the cardinality of the list's set, and
  the length of the list when the list is duplicate-free.) Taking the state after any
  prefix of the fixes as the start gives the statement for each single fix.
\<close>

theorem validated_and_badges_only_grow:
  "set (validatedWayIds s) \<subseteq> set (validatedWayIds (processFixes fxs s))
   \<and> card (set (validatedWayIds s)) \<le> card (set (validatedWayIds (processFixes fxs s)))
   \<and> length (validatedWayIds s) \<le> length (validatedWayIds (processFixes fxs s))
   \<and> set (unlockedBadges s) \<subseteq> set (unlockedBadges (processFixes fxs s))
   \<and> card (set (unlockedBadges s)) \<le> card (set (unlockedBadges (processFixes fxs s)))
   \<and> length (unlockedBadges s) \<le> length (unlockedBadges (processFixes fxs s))"
proof -
  have m: "set (validatedWayIds s) \<subseteq> set (validatedWayIds (processFixes fxs s))
   \<and> length (validatedWayIds s) \<le> length (validatedWayIds (processFixes fxs s))
   \<and> set (unlockedBadges s) \<subseteq> set (unlockedBadges (processFixes fxs s))
   \<and> length (unlockedBadges s) \<le> length (unlockedBadges (processFixes fxs s))"
  proof (induction fxs arbitrary: s)
    case Nil
    then show ?case by simp
  next
    case (Cons f fxs)
    let ?s1 = "stateOf (updatePosition (fst f) (fst (snd f)) (snd (snd f)) s)"
    from updatePosition_mono[of s "fst f" "fst (snd f)" "snd (snd f)"] Cons[of ?s1]
    show ?case by (simp del: stateOf.simps) (meson order_trans)
  qed
  then have "card (set (validatedWayIds s)) \<le> card (set (validatedWayIds (processFixes fxs s)))"
    "card (set (unlockedBadges s)) \<le> card (set (unlockedBadges (processFixes fxs s)))"
    by (simp_all add: card_mono)
  with m show ?thesis by simp
qed

lemma nearestLoop_Inr_nonempty:
  "nearestLoop lon lat cs i acc = Inr a \<Longrightarrow> \<forall>c\<in>set cs. coords c \<noteq> []"
proof (induction cs arbitrary: i acc)
  case Nil
  then show ?case by simp
next
  case (Cons c cs)
  show ?case
  proof (cases "coords c")
    case Nil
    then show ?thesis using Cons.prems by (simp add: projectOntoLineString_empty)
  next
    case (Cons v vs)
    then obtain p where p: "projectOntoLineString lon lat (coords c) = Inr p"
      using projectOntoLineString_Inr[of "coords c" lon lat] by auto
    from Cons.prems have "\<exists>i' acc'. nearestLoop lon lat cs i' acc' = Inr a"
      by (auto simp: p)
    then have "\<forall>c\<in>set cs. coords c \<noteq> []" using Cons.IH by blast
    then show ?thesis using Cons by simp
  qed
qed

lemma findNearestSegment_Some:
  assumes "findNearestSegment lon lat cs = Inr (Some n)"
  shows "nearCoverage n < length cs \<and> 2 \<le> length (coords (cs ! nearCoverage n))
         \<and> (\<exists>d. nearDistance n = Num d)"
proof -
  let ?init = "\<lparr>bestDist = Infinity, bestCov = None, bestT = 0, bestLon = lon, bestLat = lat\<rparr>"
  from assms obtain a where a: "nearestLoop lon lat cs 0 ?init = Inr a"
    and b: "bestCov a = Some (nearCoverage n)" and d: "bestDist a = nearDistance n"
    by (auto simp: findNearestSegment_def split: if_splits sum.splits option.splits)
  have ne: "\<forall>c\<in>set cs. coords c \<noteq> []" using a by (rule nearestLoop_Inr_nonempty)
  from nearestLoop_inv[OF ne, of lon lat lon lat] a
  have "nearInv lon lat lon lat cs a" by simp
  then obtain k where k: "firstMin (map (\<lambda>c. projDistance (projOf lon lat c)) cs) k"
    and fin: "jsless (projDistance (projOf lon lat (cs ! k))) Infinity"
    and ak: "a = accOf (projOf lon lat (cs ! k)) k"
    using b by (auto simp: nearInv_def)
  have kn: "k = nearCoverage n" using ak b by (simp add: accOf_def)
  have kl: "k < length cs" using k by (simp add: firstMin_def)
  have dn: "nearDistance n = projDistance (projOf lon lat (cs ! k))" using ak d by (simp add: accOf_def)
  have "2 \<le> length (coords (cs ! k))"
  proof (rule ccontr)
    assume "\<not> 2 \<le> length (coords (cs ! k))"
    then have "length (coords (cs ! k)) < 2" by simp
    moreover have "projectOntoLineString lon lat (coords (cs ! k)) = Inr (projOf lon lat (cs ! k))"
      using ne kl by (simp add: projOf_eq)
    ultimately have "projDistance (projOf lon lat (cs ! k)) = Infinity"
      by (rule projectOntoLineString_short)
    then show False using fin by simp
  qed
  moreover have "\<exists>d. nearDistance n = Num d"
  proof (cases "nearDistance n")
    case (Num x)
    then show ?thesis by blast
  next
    case Infinity
    then show ?thesis using fin dn by simp
  qed
  ultimately show ?thesis using kl kn by simp
qed

lemma belowThreshold_iff:
  assumes "1 \<le> length (samples c)"
  shows "belowThreshold c \<longleftrightarrow>
     real (length (filter (\<lambda>x. x) (covered c))) < 0.80 * real (length (samples c))"
proof -
  have ne0: "samples c \<noteq> []" using assms by (cases "samples c") auto
  then have pos: "0 < real (length (samples c))" by simp
  have ne: "length (samples c) \<noteq> 0" using ne0 by simp
  have "real (length (filter (\<lambda>x. x) (covered c))) / real (length (samples c)) < 0.80
      \<longleftrightarrow> real (length (filter (\<lambda>x. x) (covered c))) < 0.80 * real (length (samples c))"
    using pos by (simp add: pos_divide_less_eq)
  then show ?thesis using ne by (simp add: belowThreshold_def VALIDATION_THRESHOLD_def)
qed

lemma coverNearest_touched:
  assumes "nearCoverage n < length (segmentCoverages s)"
    and "\<not> validated (segmentCoverages s ! nearCoverage n)"
    and "markLoop (snappedLon n) (snappedLat n) (samples (segmentCoverages s ! nearCoverage n)) 0
           (segmentCoverages s ! nearCoverage n, False) = (cov', True)"
  shows "validated (segmentCoverages (coverNearest fs n s) ! nearCoverage n)
           \<longleftrightarrow> \<not> belowThreshold cov'"
proof -
  have v: "\<not> validated cov'"
    using markLoop_fields[of "snappedLon n" "snappedLat n"
        "samples (segmentCoverages s ! nearCoverage n)" 0 "(segmentCoverages s ! nearCoverage n, False)"]
      assms(2,3) by simp
  show ?thesis using assms v
    by (simp add: coverNearest_def Let_def validateSegment_fields)
qed

text \<open>
  C2. A fix whose nearest match is a not yet validated entry within the ceiling,
  and which newly covers at least one sample, runs the validation check on the
  entry as marked, \<open>cov'\<close>, with \<open>N \<ge> 1\<close> samples: when exactly
  \<open>\<lceil>0.80 N\<rceil>\<close> of its samples are covered the entry becomes validated, and when
  exactly \<open>\<lceil>0.80 N\<rceil> - 1\<close> are covered it stays unvalidated.
\<close>

theorem validation_threshold_boundary:
  assumes "ready" and "geojson s = Some fs"
    and "findNearestSegment lon lat (segmentCoverages s) = Inr (Some n)"
    and "\<not> jsless (Num MAP_MATCH_MAX_DIST) (nearDistance n)"
    and "\<not> validated (segmentCoverages s ! nearCoverage n)"
    and "markLoop (snappedLon n) (snappedLat n) (samples (segmentCoverages s ! nearCoverage n)) 0
           (segmentCoverages s ! nearCoverage n, False) = (cov', True)"
    and "N = length (samples cov')" and "1 \<le> N"
  shows "(length (filter (\<lambda>x. x) (covered cov')) = nat \<lceil>0.80 * real N\<rceil>
            \<longrightarrow> validated (segmentCoverages (stateOf (updatePosition ready lon lat s)) ! nearCoverage n))
       \<and> (int (length (filter (\<lambda>x. x) (covered cov'))) = \<lceil>0.80 * real N\<rceil> - 1
            \<longrightarrow> \<not> validated (segmentCoverages (stateOf (updatePosition ready lon lat s)) ! nearCoverage n))"
proof -
  have idx: "nearCoverage n < length (segmentCoverages s)"
    using findNearestSegment_Some[OF assms(3)] by simp
  then have ne: "segmentCoverages s \<noteq> []" by auto
  have up: "stateOf (updatePosition ready lon lat s) = coverNearest fs n (storePosition lon lat s)"
    using assms(1-4) ne by (simp add: updatePosition_def Let_def)
  have "validated (segmentCoverages (coverNearest fs n (storePosition lon lat s)) ! nearCoverage n)
           \<longleftrightarrow> \<not> belowThreshold cov'"
    using coverNearest_touched[of n "storePosition lon lat s" cov' fs] idx assms(5,6) by simp
  then have v: "validated (segmentCoverages (stateOf (updatePosition ready lon lat s)) ! nearCoverage n)
      \<longleftrightarrow> \<not> real (length (filter (\<lambda>x. x) (covered cov'))) < 0.80 * real N"
    using up belowThreshold_iff[of cov'] assms(7,8) by simp
  have c1: "0.80 * real N \<le> real_of_int \<lceil>0.80 * real N\<rceil>" by (rule le_of_int_ceiling)
  have c2: "real_of_int \<lceil>0.80 * real N\<rceil> - 1 < 0.80 * real N" by linarith
  have pos: "0 \<le> \<lceil>0.80 * real N\<rceil>" by (simp add: ceiling_le_iff) 
  show ?thesis
  proof (intro conjI impI)
    assume "length (filter (\<lambda>x. x) (covered cov')) = nat \<lceil>0.80 * real N\<rceil>"
    then have "real (length (filter (\<lambda>x. x) (covered cov'))) = real_of_int \<lceil>0.80 * real N\<rceil>"
      using pos by simp
    then show "validated (segmentCoverages (stateOf (updatePosition ready lon lat s)) ! nearCoverage n)"
      using v c1 by linarith
  next
    assume "int (length (filter (\<lambda>x. x) (covered cov'))) = \<lceil>0.80 * real N\<rceil> - 1"
    then have "real (length (filter (\<lambda>x. x) (covered cov'))) = real_of_int \<lceil>0.80 * real N\<rceil> - 1"
      by (metis of_int_1 of_int_diff of_int_of_nat_eq)
    then show "\<not> validated (segmentCoverages (stateOf (updatePosition ready lon lat s)) ! nearCoverage n)"
      using v c2 by linarith
  qed
qed

lemma nearest_straight_origin:
  "coords c = [(0, 0), (0, 1)] \<Longrightarrow> findNearestSegment 0 0 [c]
     = Inr (Some \<lparr>nearCoverage = 0, nearT = 0, snappedLon = 0, snappedLat = 0,
                   nearDistance = Num 0\<rparr>)"
  by (simp add: findNearestSegment_def project_straight_origin)

lemma mark_onePoint:
  "markLoop 0 0 (samples onePointStreet) 0 (onePointStreet, False)
     = (onePointStreet\<lparr>covered := [True], minCoveredT := 0, maxCoveredT := 0\<rparr>, True)"
  by (simp add: onePointStreet_def straightStreet_def markSample_def jsGet_def jsSet_def
      distancePointToPoint_def COVERAGE_RADIUS_METERS_def)

lemma mark_twoPoint:
  "markLoop 0 0 (samples twoPointStreet) 0 (twoPointStreet, False)
     = (twoPointStreet\<lparr>covered := [True, False], minCoveredT := 0, maxCoveredT := 0\<rparr>, True)"
  by (simp add: twoPointStreet_def straightStreet_def markSample_def jsGet_def jsSet_def
      distancePointToPoint_def COVERAGE_RADIUS_METERS_def)

theorem validation_threshold_boundary_witness:
  "markLoop 0 0 (samples onePointStreet) 0 (onePointStreet, False)
     = (onePointStreet\<lparr>covered := [True], minCoveredT := 0, maxCoveredT := 0\<rparr>, True)
   \<and> length (filter (\<lambda>x. x) [True]) = nat \<lceil>0.80 * real (1::nat)\<rceil>
   \<and> validated (segmentCoverages
        (stateOf (updatePosition True 0 0 (exampleEngine [onePointStreet]))) ! 0)
   \<and> markLoop 0 0 (samples twoPointStreet) 0 (twoPointStreet, False)
     = (twoPointStreet\<lparr>covered := [True, False], minCoveredT := 0, maxCoveredT := 0\<rparr>, True)
   \<and> int (length (filter (\<lambda>x. x) [True, False])) = \<lceil>0.80 * real (2::nat)\<rceil> - 1
   \<and> \<not> validated (segmentCoverages
        (stateOf (updatePosition True 0 0 (exampleEngine [twoPointStreet]))) ! 0)"
proof -
  let ?n = "\<lparr>nearCoverage = 0, nearT = 0, snappedLon = 0, snappedLat = 0, nearDistance = Num 0\<rparr>"
  let ?s1 = "exampleEngine [onePointStreet]"
  let ?s2 = "exampleEngine [twoPointStreet]"
  let ?c1 = "onePointStreet\<lparr>covered := [True], minCoveredT := 0, maxCoveredT := 0\<rparr>"
  let ?c2 = "twoPointStreet\<lparr>covered := [True, False], minCoveredT := 0, maxCoveredT := 0\<rparr>"
  have g1: "geojson ?s1 = Some [\<lparr>featureId = 1, coordinates = [(0, 0), (0, 1)]\<rparr>]"
    by (simp add: exampleEngine_def onePointStreet_def straightStreet_def)
  have g2: "geojson ?s2 = Some [\<lparr>featureId = 1, coordinates = [(0, 0), (0, 1)]\<rparr>]"
    by (simp add: exampleEngine_def twoPointStreet_def straightStreet_def)
  have n1: "findNearestSegment 0 0 (segmentCoverages ?s1) = Inr (Some ?n)"
    by (simp add: exampleEngine_def nearest_straight_origin onePointStreet_def straightStreet_def)
  have n2: "findNearestSegment 0 0 (segmentCoverages ?s2) = Inr (Some ?n)"
    by (simp add: exampleEngine_def nearest_straight_origin twoPointStreet_def straightStreet_def)
  have d: "\<not> jsless (Num MAP_MATCH_MAX_DIST) (nearDistance ?n)"
    by (simp add: MAP_MATCH_MAX_DIST_def)
  have v1: "\<not> validated (segmentCoverages ?s1 ! nearCoverage ?n)"
    by (simp add: exampleEngine_def onePointStreet_def straightStreet_def)
  have v2: "\<not> validated (segmentCoverages ?s2 ! nearCoverage ?n)"
    by (simp add: exampleEngine_def twoPointStreet_def straightStreet_def)
  have m1: "markLoop (snappedLon ?n) (snappedLat ?n)
              (samples (segmentCoverages ?s1 ! nearCoverage ?n)) 0
              (segmentCoverages ?s1 ! nearCoverage ?n, False) = (?c1, True)"
    using mark_onePoint by (simp add: exampleEngine_def)
  have m2: "markLoop (snappedLon ?n) (snappedLat ?n)
              (samples (segmentCoverages ?s2 ! nearCoverage ?n)) 0
              (segmentCoverages ?s2 ! nearCoverage ?n, False) = (?c2, True)"
    using mark_twoPoint by (simp add: exampleEngine_def)
  have N1: "(1::nat) = length (samples ?c1)" by (simp add: onePointStreet_def)
  have N2: "(2::nat) = length (samples ?c2)" by (simp add: twoPointStreet_def)
  have k1: "length (filter (\<lambda>x. x) [True]) = nat \<lceil>0.80 * real (1::nat)\<rceil>" by simp
  have k2: "int (length (filter (\<lambda>x. x) [True, False])) = \<lceil>0.80 * real (2::nat)\<rceil> - 1"
    by simp
  from validation_threshold_boundary[OF TrueI g1 n1 d v1 m1 N1] k1
  have r1: "validated (segmentCoverages (stateOf (updatePosition True 0 0 ?s1)) ! 0)" by simp
  from validation_threshold_boundary[OF TrueI g2 n2 d v2 m2 N2] k2
  have r2: "\<not> validated (segmentCoverages (stateOf (updatePosition True 0 0 ?s2)) ! 0)" by simp
  show ?thesis using mark_onePoint mark_twoPoint k1 k2 r1 r2 by blast
qed

section \<open>Sessions and the persistence schedule\<close>

lemma getUserId_truthy: "uuid \<noteq> [] \<Longrightarrow> truthy (Some (getUserId stored uuid))"
  by (simp add: getUserId_def truthy_def split: option.splits)

lemma restoreId_fields [simp]:
  "userId (restoreId w s) = userId s"
  "geojson (restoreId w s) = geojson s"
  "savedCount (restoreId w s) = savedCount s"
  "saves (restoreId w s) = saves s"
  "unlockedBadges (restoreId w s) = unlockedBadges s"
  "validatedWayIds (restoreId w s) = setAdd w (validatedWayIds s)"
  by (simp_all add: restoreId_def Let_def split: option.splits)

lemma fold_restoreId_fields [simp]:
  "userId (fold restoreId ws s) = userId s"
  "geojson (fold restoreId ws s) = geojson s"
  "saves (fold restoreId ws s) = saves s"
  "unlockedBadges (fold restoreId ws s) = unlockedBadges s"
  by (induction ws arbitrary: s) simp_all

lemma mapLoad_userId:
  "userId (mapLoad inp s) = Some (getUserId (storedUserId inp) (freshUuid inp))"
  by (simp add: mapLoad_def Let_def)

lemma mapLoad_geojson:
  "geojson (mapLoad inp s) = (if dataLoaded inp then Some (streetsToGeoJSON (streets inp)) else geojson s)"
  by (simp add: mapLoad_def Let_def)

lemma mapLoad_failed:
  "\<not> dataLoaded inp \<Longrightarrow> validatedWayIds (mapLoad inp s) = validatedWayIds s
      \<and> savedCount (mapLoad inp s) = savedCount s"
  by (simp add: mapLoad_def Let_def)

lemma mapLoad_sessionInv:
  assumes "freshUuid inp \<noteq> []"
  shows "sessionInv (mapLoad inp (initEngine c))"
proof -
  have "truthy (userId (mapLoad inp (initEngine c)))"
    using assms by (simp add: mapLoad_userId getUserId_truthy)
  moreover have "geojson (mapLoad inp (initEngine c)) = None
      \<longrightarrow> validatedWayIds (mapLoad inp (initEngine c)) = [] \<and> savedCount (mapLoad inp (initEngine c)) = 0"
    using mapLoad_failed[of inp "initEngine c"]
    by (cases "dataLoaded inp") (simp_all add: mapLoad_geojson initEngine_def)
  ultimately show ?thesis by (simp add: sessionInv_def)
qed

lemma coverNearest_cases:
  "(\<exists>c s3. coverNearest fs n s = validateSegment fs (nearCoverage n) c s3
       \<and> \<not> validated (segmentCoverages s ! nearCoverage n)
       \<and> savedCount s3 = savedCount s \<and> saves s3 = saves s
       \<and> validatedWayIds s3 = validatedWayIds s \<and> userId s3 = userId s
       \<and> geojson s3 = geojson s \<and> unlockedBadges s3 = unlockedBadges s)
   \<or> (savedCount (coverNearest fs n s) = savedCount s \<and> saves (coverNearest fs n s) = saves s
       \<and> validatedWayIds (coverNearest fs n s) = validatedWayIds s
       \<and> userId (coverNearest fs n s) = userId s \<and> geojson (coverNearest fs n s) = geojson s
       \<and> (\<exists>c. segmentCoverages (coverNearest fs n s) = (segmentCoverages s)[nearCoverage n := c]
              \<and> validated c = validated (segmentCoverages s ! nearCoverage n)))"
proof (cases "validated (segmentCoverages s ! nearCoverage n)")
  case True
  then have e: "coverNearest fs n s = s" by (rule coverNearest_validated)
  have "segmentCoverages s = (segmentCoverages s)[nearCoverage n := segmentCoverages s ! nearCoverage n]"
    by simp
  then show ?thesis using e by metis
next
  case False
  define cov where "cov = segmentCoverages s ! nearCoverage n"
  define marked where "marked = markLoop (snappedLon n) (snappedLat n) (samples cov) 0 (cov, False)"
  define s2 where "s2 = s\<lparr>segmentCoverages := (segmentCoverages s)[nearCoverage n := fst marked]\<rparr>"
  define s3 where "s3 = s2\<lparr>progressSource := progressFeatures (segmentCoverages s2)\<rparr>"
  have v: "validated (fst marked) = validated cov"
    using markLoop_fields[of _ _ _ _ "(cov, False)"] by (simp add: marked_def)
  have cn: "coverNearest fs n s = (if \<not> snd marked then s2
        else if belowThreshold (fst marked) then s3
        else validateSegment fs (nearCoverage n) (fst marked) s3)"
    using False by (simp add: coverNearest_def Let_def cov_def marked_def s2_def s3_def)
  show ?thesis
  proof (cases "snd marked \<and> \<not> belowThreshold (fst marked)")
    case True
    then have "coverNearest fs n s = validateSegment fs (nearCoverage n) (fst marked) s3"
      using cn by simp
    moreover have "savedCount s3 = savedCount s \<and> saves s3 = saves s
       \<and> validatedWayIds s3 = validatedWayIds s \<and> userId s3 = userId s
       \<and> geojson s3 = geojson s \<and> unlockedBadges s3 = unlockedBadges s"
      by (simp add: s3_def s2_def)
    ultimately show ?thesis using False by blast
  next
    case False
    then have "coverNearest fs n s = s2 \<or> coverNearest fs n s = s3" using cn by auto
    then have "savedCount (coverNearest fs n s) = savedCount s \<and> saves (coverNearest fs n s) = saves s
       \<and> validatedWayIds (coverNearest fs n s) = validatedWayIds s
       \<and> userId (coverNearest fs n s) = userId s \<and> geojson (coverNearest fs n s) = geojson s
       \<and> segmentCoverages (coverNearest fs n s) = (segmentCoverages s)[nearCoverage n := fst marked]"
      by (auto simp: s3_def s2_def)
    then show ?thesis using v cov_def by blast
  qed
qed

lemma coverNearest_env [simp]:
  "userId (coverNearest fs n s) = userId s" "geojson (coverNearest fs n s) = geojson s"
  using coverNearest_cases[of fs n s] by (auto simp: validateSegment_fields)

lemma updatePosition_env [simp]:
  "userId (stateOf (updatePosition ready lon lat s)) = userId s"
  "geojson (stateOf (updatePosition ready lon lat s)) = geojson s"
  using updatePosition_shape[of ready lon lat s] by auto

lemma updatePosition_sessionInv:
  assumes "sessionInv s"
  shows "sessionInv (stateOf (updatePosition ready lon lat s))"
proof (cases "geojson s")
  case None
  then have "updatePosition ready lon lat s = Returned s" by (simp add: updatePosition_not_loaded)
  then show ?thesis using assms by simp
next
  case (Some fs)
  then show ?thesis using assms by (simp add: sessionInv_def)
qed

lemma processFixes_sessionInv:
  "sessionInv s \<Longrightarrow> sessionInv (processFixes fxs s)"
  by (induction fxs arbitrary: s) (simp_all add: updatePosition_sessionInv del: stateOf.simps)

lemma session_inv: "freshUuid inp \<noteq> [] \<Longrightarrow> sessionInv (session c inp fxs)"
  by (simp add: session_def processFixes_sessionInv mapLoad_sessionInv)

lemma validateSegment_save:
  assumes "userId s = Some uid" and "uid \<noteq> []"
  shows "savedCount (validateSegment fs idx c s)
           = (if int (length (validatedWayIds (validateSegment fs idx c s))) - savedCount s \<ge> SAVE_EVERY_N
              then int (length (validatedWayIds (validateSegment fs idx c s))) else savedCount s)
       \<and> saves (validateSegment fs idx c s)
           = (if int (length (validatedWayIds (validateSegment fs idx c s))) - savedCount s \<ge> SAVE_EVERY_N
              then saves s @ [\<lparr>user_id = uid, expCity = city s,
                               explored_way_ids = validatedWayIds (validateSegment fs idx c s),
                               total_ways = length fs,
                               badges = unlockedBadges (validateSegment fs idx c s)\<rparr>]
              else saves s)"
  using assms
  by (simp add: validateSegment_def Let_def saveBatch_def snapshot_def)

lemma updatePosition_save:
  assumes "userId s = Some uid" and "uid \<noteq> []"
  shows "((\<exists>i<length (segmentCoverages s). \<not> validated (segmentCoverages s ! i)
              \<and> validated (segmentCoverages (stateOf (updatePosition ready lon lat s)) ! i))
          \<and> savedCount (stateOf (updatePosition ready lon lat s))
               = (if int (length (validatedWayIds (stateOf (updatePosition ready lon lat s))))
                       - savedCount s \<ge> SAVE_EVERY_N
                  then int (length (validatedWayIds (stateOf (updatePosition ready lon lat s))))
                  else savedCount s)
          \<and> saves (stateOf (updatePosition ready lon lat s))
               = (if int (length (validatedWayIds (stateOf (updatePosition ready lon lat s))))
                       - savedCount s \<ge> SAVE_EVERY_N
                  then saves s @ [snapshot uid (length (the (geojson s)))
                                    (stateOf (updatePosition ready lon lat s))]
                  else saves s))
       \<or> (\<not> (\<exists>i<length (segmentCoverages s). \<not> validated (segmentCoverages s ! i)
              \<and> validated (segmentCoverages (stateOf (updatePosition ready lon lat s)) ! i))
          \<and> savedCount (stateOf (updatePosition ready lon lat s)) = savedCount s
          \<and> saves (stateOf (updatePosition ready lon lat s)) = saves s)"
proof -
  let ?s' = "stateOf (updatePosition ready lon lat s)"
  let ?ev = "\<exists>i<length (segmentCoverages s). \<not> validated (segmentCoverages s ! i)
              \<and> validated (segmentCoverages ?s' ! i)"
  from updatePosition_shape[of ready lon lat s]
  consider "?s' = s" | "?s' = storePosition lon lat s"
    | fs n where "geojson s = Some fs"
        "findNearestSegment lon lat (segmentCoverages s) = Inr (Some n)"
        "?s' = coverNearest fs n (storePosition lon lat s)"
    by blast
  then show ?thesis
  proof cases
    case 1
    then show ?thesis by simp
  next
    case 2
    then show ?thesis by simp
  next
    case 3
    let ?s1 = "storePosition lon lat s"
    let ?idx = "nearCoverage n"
    have idx: "?idx < length (segmentCoverages s)"
      using findNearestSegment_Some[OF 3(2)] by simp
    from coverNearest_cases[of fs n ?s1]
    consider (val) c s3 where "coverNearest fs n ?s1 = validateSegment fs ?idx c s3"
        "\<not> validated (segmentCoverages ?s1 ! ?idx)"
        "savedCount s3 = savedCount ?s1" "saves s3 = saves ?s1"
        "validatedWayIds s3 = validatedWayIds ?s1" "userId s3 = userId ?s1"
        "unlockedBadges s3 = unlockedBadges ?s1"
      | (same) c where "savedCount (coverNearest fs n ?s1) = savedCount ?s1"
        "saves (coverNearest fs n ?s1) = saves ?s1"
        "segmentCoverages (coverNearest fs n ?s1) = (segmentCoverages ?s1)[?idx := c]"
        "validated c = validated (segmentCoverages ?s1 ! ?idx)"
      by blast
    then show ?thesis
    proof cases
      case val
      have e: "?s' = validateSegment fs ?idx c s3" using 3(3) val(1) by simp
      have len: "length (segmentCoverages s3) = length (segmentCoverages s)"
        using updatePosition_length[of ready lon lat s] e by (simp add: validateSegment_fields)
      have "validated (segmentCoverages ?s' ! ?idx)"
        using e idx len by (simp add: validateSegment_fields)
      moreover have "\<not> validated (segmentCoverages s ! ?idx)" using val(2) by simp
      ultimately have ev: ?ev using idx by blast
      have u3: "userId s3 = Some uid" using val(6) assms(1) by simp
      have c3: "city s3 = city ?s'" using e by (simp add: validateSegment_fields)
      from validateSegment_save[OF u3 assms(2), of fs ?idx c]
      have "savedCount ?s' = (if int (length (validatedWayIds ?s')) - savedCount s \<ge> SAVE_EVERY_N
              then int (length (validatedWayIds ?s')) else savedCount s)
       \<and> saves ?s' = (if int (length (validatedWayIds ?s')) - savedCount s \<ge> SAVE_EVERY_N
              then saves s @ [snapshot uid (length (the (geojson s))) ?s']
              else saves s)"
        using e val(3,4) 3(1) c3 by (simp add: snapshot_def)
      then show ?thesis using ev by blast
    next
      case same
      have cv: "segmentCoverages ?s' = (segmentCoverages s)[?idx := c]"
        using 3(3) same(3) by simp
      have "\<not> ?ev"
      proof
        assume ?ev
        then obtain i where i: "i < length (segmentCoverages s)"
          "\<not> validated (segmentCoverages s ! i)" "validated (segmentCoverages ?s' ! i)" by blast
        show False
        proof (cases "i = ?idx")
          case True
          then show ?thesis using i cv same(4) by simp
        next
          case False
          then show ?thesis using i cv by simp
        qed
      qed
      moreover have "savedCount ?s' = savedCount s" "saves ?s' = saves s"
        using 3(3) same(1,2) by simp_all
      ultimately show ?thesis by blast
    qed
  qed
qed

lemma restoreId_city [simp]: "city (restoreId w s) = city s"
  by (simp add: restoreId_def Let_def split: option.splits)

lemma fold_restoreId_city [simp]: "city (fold restoreId ws s) = city s"
  by (induction ws arbitrary: s) simp_all

lemma mapLoad_city: "city (mapLoad inp s) = city s"
  by (simp add: mapLoad_def Let_def)

lemma coverNearest_city [simp]: "city (coverNearest fs n s) = city s"
  by (simp add: coverNearest_def Let_def validateSegment_fields)

lemma updatePosition_city [simp]: "city (stateOf (updatePosition ready lon lat s)) = city s"
  using updatePosition_shape[of ready lon lat s] by auto

lemma processFixes_env:
  "userId (processFixes fxs s) = userId s \<and> geojson (processFixes fxs s) = geojson s
   \<and> city (processFixes fxs s) = city s"
  by (induction fxs arbitrary: s) (simp_all del: stateOf.simps)

lemma streetsToGeoJSON_length: "length (streetsToGeoJSON ways) = length ways"
  by (simp add: streetsToGeoJSON_def)

lemma session_fields:
  "userId (session c inp fxs) = Some (getUserId (storedUserId inp) (freshUuid inp))"
  "city (session c inp fxs) = c"
  "geojson (session c inp fxs)
     = (if dataLoaded inp then Some (streetsToGeoJSON (streets inp)) else None)"
  by (simp_all add: session_def processFixes_env mapLoad_userId mapLoad_city mapLoad_geojson
      initEngine_def)

text \<open>
  C9. Let \<open>s\<close> be the state of a session (load, then any fixes; the fresh UUID is a
  non-empty string) and \<open>s'\<close> the state after one more fix. If the fix validated an
  entry, a snapshot-save request is emitted exactly when the size of the validated
  set minus the saved count is at least 10, and the saved count becomes the size of
  the validated set; otherwise nothing is emitted and the saved count stays. A fix
  that validates nothing emits nothing. On teardown exactly one final snapshot is
  emitted when the validated set is larger than the saved count, and none otherwise.
  Every emitted request is the full snapshot: the session's user id (a non-empty
  string, so the request is not dropped), the city, the whole validated set, the
  number of loaded streets and the unlocked badges.
\<close>

theorem persistence_schedule:
  fixes c inp fxs ready lon lat
  defines "s \<equiv> session c inp fxs"
  defines "s' \<equiv> stateOf (updatePosition ready lon lat s)"
  assumes uuid: "freshUuid inp \<noteq> []"
  shows "((\<exists>i<length (segmentCoverages s).
             \<not> validated (segmentCoverages s ! i) \<and> validated (segmentCoverages s' ! i))
          \<longrightarrow> (if int (length (validatedWayIds s')) - savedCount s \<ge> SAVE_EVERY_N
               then savedCount s' = int (length (validatedWayIds s'))
                  \<and> saves s' = saves s @
                       [\<lparr>user_id = getUserId (storedUserId inp) (freshUuid inp),
                         expCity = c,
                         explored_way_ids = validatedWayIds s',
                         total_ways = length (streets inp),
                         badges = unlockedBadges s'\<rparr>]
               else savedCount s' = savedCount s \<and> saves s' = saves s))
       \<and> (\<not> (\<exists>i<length (segmentCoverages s).
                \<not> validated (segmentCoverages s ! i) \<and> validated (segmentCoverages s' ! i))
          \<longrightarrow> savedCount s' = savedCount s \<and> saves s' = saves s)
       \<and> (if int (length (validatedWayIds s)) > savedCount s
          then saves (cleanup s) = saves s @
                 [\<lparr>user_id = getUserId (storedUserId inp) (freshUuid inp),
                   expCity = c,
                   explored_way_ids = validatedWayIds s,
                   total_ways = length (streets inp),
                   badges = unlockedBadges s\<rparr>]
          else saves (cleanup s) = saves s)
       \<and> getUserId (storedUserId inp) (freshUuid inp) \<noteq> []"
proof -
  let ?uid = "getUserId (storedUserId inp) (freshUuid inp)"
  let ?ev = "\<exists>i<length (segmentCoverages s).
                \<not> validated (segmentCoverages s ! i) \<and> validated (segmentCoverages s' ! i)"
  have inv: "sessionInv s" unfolding s_def using uuid by (rule session_inv)
  have uid: "userId s = Some ?uid" unfolding s_def by (rule session_fields(1))
  have une: "?uid \<noteq> []" using inv uid by (simp add: sessionInv_def truthy_def)
  have cty: "city s = c" unfolding s_def by (rule session_fields(2))
  have cty': "city s' = c" unfolding s'_def using cty by simp
  have geo: "geojson s = (if dataLoaded inp then Some (streetsToGeoJSON (streets inp)) else None)"
    unfolding s_def by (rule session_fields(3))
  have tear: "if int (length (validatedWayIds s)) > savedCount s
          then saves (cleanup s) = saves s @
                 [\<lparr>user_id = ?uid, expCity = c, explored_way_ids = validatedWayIds s,
                   total_ways = length (streets inp), badges = unlockedBadges s\<rparr>]
          else saves (cleanup s) = saves s"
  proof (cases "dataLoaded inp")
    case False
    then have g: "geojson s = None" using geo by simp
    then have "validatedWayIds s = []" "savedCount s = 0" using inv by (simp_all add: sessionInv_def)
    then show ?thesis using g uid by (simp add: cleanup_def)
  next
    case True
    then have g: "geojson s = Some (streetsToGeoJSON (streets inp))" using geo by simp
    show ?thesis using g uid une cty
      by (simp add: cleanup_def snapshot_def streetsToGeoJSON_length)
  qed
  have stp: "(?ev \<longrightarrow> (if int (length (validatedWayIds s')) - savedCount s \<ge> SAVE_EVERY_N
               then savedCount s' = int (length (validatedWayIds s'))
                  \<and> saves s' = saves s @
                       [\<lparr>user_id = ?uid, expCity = c, explored_way_ids = validatedWayIds s',
                         total_ways = length (streets inp), badges = unlockedBadges s'\<rparr>]
               else savedCount s' = savedCount s \<and> saves s' = saves s))
       \<and> (\<not> ?ev \<longrightarrow> savedCount s' = savedCount s \<and> saves s' = saves s)"
  proof (cases "dataLoaded inp")
    case False
    then have "geojson s = None" using geo by simp
    then have "updatePosition ready lon lat s = Returned s" by (simp add: updatePosition_not_loaded)
    then have e: "s' = s" by (simp add: s'_def)
    show ?thesis unfolding e by simp
  next
    case True
    then have g: "the (geojson s) = streetsToGeoJSON (streets inp)" using geo by simp
    have sn: "snapshot ?uid (length (the (geojson s))) s'
        = \<lparr>user_id = ?uid, expCity = c, explored_way_ids = validatedWayIds s',
           total_ways = length (streets inp), badges = unlockedBadges s'\<rparr>"
      by (simp add: snapshot_def g cty' streetsToGeoJSON_length)
    from updatePosition_save[OF uid une, of ready lon lat]
    show ?thesis unfolding s'_def[symmetric] sn
      by (cases "int (length (validatedWayIds s')) - savedCount s \<ge> SAVE_EVERY_N") auto
  qed
  show ?thesis using stp tear une by blast
qed

lemma segLength_metre: "segLength 1 (0, 0) (0, 1 / 111000) = 1"
  by (simp add: segLength_def)

lemma sample_metre:
  "sampleLineStringWithT [(0, 0), (0, 1 / 111000)] 5
     = Some [\<lparr>sampleLon = 0, sampleLat = 0, sampleT = 0\<rparr>,
             \<lparr>sampleLon = 0, sampleLat = 1 / 111000, sampleT = 1\<rparr>]"
  by (simp add: sampleLineStringWithT_def segLength_metre stepCount_def samplePoint_def
      sampleSteps.simps)

lemma load_example:
  "mapLoad exampleLoad (initEngine c)
     = (initEngine c)\<lparr>userId := Some ''u1'',
          geojson := Some [\<lparr>featureId = 1, coordinates = [(0, 0), (0, 1 / 111000)]\<rparr>],
          segmentCoverages := [metreStreet], streetCount := Some 1\<rparr>"
  by (simp add: mapLoad_def exampleLoad_def getUserId_def streetsToGeoJSON_def newCoverage_def
      SAMPLE_STEP_METERS_def sample_metre metreStreet_def initEngine_def)

lemma project_metre:
  "projectOntoLineString 0 0 [(0, 0), (0, 1 / 111000)]
     = Inr \<lparr>projT = 0, projLon = 0, projLat = 0, projDistance = Num 0\<rparr>"
  by (simp add: projectOntoLineString_def projectStep_def Let_def segLength_metre)

lemma nearest_metre:
  "findNearestSegment 0 0 [metreStreet]
     = Inr (Some \<lparr>nearCoverage = 0, nearT = 0, snappedLon = 0, snappedLat = 0,
                   nearDistance = Num 0\<rparr>)"
  by (simp add: findNearestSegment_def project_metre metreStreet_def)

lemma mark_metre:
  "markLoop 0 0 (samples metreStreet) 0 (metreStreet, False)
     = (metreStreet\<lparr>covered := [True, True], minCoveredT := 0, maxCoveredT := 1\<rparr>, True)"
  by (simp add: metreStreet_def markSample_def jsGet_def jsSet_def
      distancePointToPoint_def COVERAGE_RADIUS_METERS_def)

lemma update_example:
  "segmentCoverages (stateOf (updatePosition True 0 0 (session c exampleLoad [])))
      = [metreStreet\<lparr>covered := [True, True], minCoveredT := 0, maxCoveredT := 1,
                       validated := True\<rparr>]
   \<and> validatedWayIds (stateOf (updatePosition True 0 0 (session c exampleLoad []))) = [1]
   \<and> savedCount (stateOf (updatePosition True 0 0 (session c exampleLoad []))) = 0
   \<and> saves (stateOf (updatePosition True 0 0 (session c exampleLoad []))) = []"
proof -
  define S0 where "S0 = session c exampleLoad []"
  define fs where "fs = [\<lparr>featureId = 1, coordinates = [(0, 0), (0, 1 / 111000)]\<rparr>]"
  have f: "geojson S0 = Some fs" "segmentCoverages S0 = [metreStreet]" "validatedWayIds S0 = []"
    "savedCount S0 = 0" "saves S0 = []" "userId S0 = Some ''u1''" "unlockedBadges S0 = []"
    by (simp_all add: S0_def fs_def session_def load_example) (simp_all add: initEngine_def)
  have nb: "\<not> belowThreshold (metreStreet\<lparr>covered := [True, True], minCoveredT := 0, maxCoveredT := 1\<rparr>)"
    by (simp add: belowThreshold_def metreStreet_def VALIDATION_THRESHOLD_def)
  have w: "wayId metreStreet = 1" by (simp add: metreStreet_def)
  have nv: "\<not> validated metreStreet" by (simp add: metreStreet_def)
  have cn: "coverNearest fs \<lparr>nearCoverage = 0, nearT = 0, snappedLon = 0, snappedLat = 0,
                   nearDistance = Num 0\<rparr> (storePosition 0 0 S0)
      = validateSegment fs 0
          (metreStreet\<lparr>covered := [True, True], minCoveredT := 0, maxCoveredT := 1\<rparr>)
          ((storePosition 0 0 S0)
             \<lparr>segmentCoverages :=
                 [metreStreet\<lparr>covered := [True, True], minCoveredT := 0, maxCoveredT := 1\<rparr>],
              progressSource := progressFeatures
                 [metreStreet\<lparr>covered := [True, True], minCoveredT := 0, maxCoveredT := 1\<rparr>]\<rparr>)"
    by (simp add: coverNearest_def Let_def f mark_metre nb nv)
  have up: "stateOf (updatePosition True 0 0 S0)
      = coverNearest fs \<lparr>nearCoverage = 0, nearT = 0, snappedLon = 0, snappedLat = 0,
                   nearDistance = Num 0\<rparr> (storePosition 0 0 S0)"
    by (simp add: updatePosition_def Let_def f nearest_metre MAP_MATCH_MAX_DIST_def)
  have sv: "savedCount (validateSegment fs 0 cv X) = savedCount X
          \<and> saves (validateSegment fs 0 cv X) = saves X"
    if "validatedWayIds X = []" "savedCount X = 0" for cv X
    using that by (simp add: validateSegment_def Let_def saveBatch_def SAVE_EVERY_N_def setAdd_def
        split: option.splits)
  show ?thesis
    unfolding S0_def[symmetric] up cn
    using sv[of "(storePosition 0 0 S0)
             \<lparr>segmentCoverages :=
                 [metreStreet\<lparr>covered := [True, True], minCoveredT := 0, maxCoveredT := 1\<rparr>],
              progressSource := progressFeatures
                 [metreStreet\<lparr>covered := [True, True], minCoveredT := 0, maxCoveredT := 1\<rparr>]\<rparr>"]
    by (simp add: validateSegment_fields f w setAdd_def)
qed

theorem persistence_schedule_witness:
  "freshUuid exampleLoad \<noteq> []
   \<and> \<not> validated (segmentCoverages (session ''Marly-le-Roi'' exampleLoad []) ! 0)
   \<and> validated (segmentCoverages
        (stateOf (updatePosition True 0 0 (session ''Marly-le-Roi'' exampleLoad []))) ! 0)
   \<and> saves (stateOf (updatePosition True 0 0 (session ''Marly-le-Roi'' exampleLoad [])))
        = saves (session ''Marly-le-Roi'' exampleLoad [])
   \<and> (\<exists>snap. saves (cleanup (session ''Marly-le-Roi'' exampleLoad [(True, 0, 0)]))
               = saves (session ''Marly-le-Roi'' exampleLoad [(True, 0, 0)]) @ [snap]
           \<and> explored_way_ids snap = [1])"
proof -
  let ?s = "session ''Marly-le-Roi'' exampleLoad []"
  let ?s' = "stateOf (updatePosition True 0 0 ?s)"
  have u: "freshUuid exampleLoad \<noteq> []" by (simp add: exampleLoad_def)
  have s1: "session ''Marly-le-Roi'' exampleLoad [(True, 0, 0)] = ?s'"
    by (simp add: session_def)
  have c0: "segmentCoverages ?s = [metreStreet]" "savedCount ?s = 0"
    by (simp_all add: session_def load_example) (simp_all add: initEngine_def)
  have nv: "\<not> validated (segmentCoverages ?s ! 0)" by (simp add: c0 metreStreet_def)
  have v: "validated (segmentCoverages ?s' ! 0)" using update_example[of "''Marly-le-Roi''"] by simp
  have ev: "\<exists>i<length (segmentCoverages ?s).
       \<not> validated (segmentCoverages ?s ! i) \<and> validated (segmentCoverages ?s' ! i)"
    using nv v c0 by auto
  have small: "\<not> int (length (validatedWayIds ?s')) - savedCount ?s \<ge> SAVE_EVERY_N"
    using update_example[of "''Marly-le-Roi''"] c0 by (simp add: SAVE_EVERY_N_def)
  from persistence_schedule[OF u, of "''Marly-le-Roi''" "[]" True 0 0] ev small
  have a: "saves ?s' = saves ?s" by simp
  have gt: "int (length (validatedWayIds ?s')) > savedCount ?s'"
    using update_example[of "''Marly-le-Roi''"] by simp
  from persistence_schedule[OF u, of "''Marly-le-Roi''" "[(True, 0, 0)]" True 0 0] gt
  have "\<exists>snap. saves (cleanup ?s') = saves ?s' @ [snap] \<and> explored_way_ids snap = validatedWayIds ?s'"
    unfolding s1 by auto
  then have b: "\<exists>snap. saves (cleanup ?s') = saves ?s' @ [snap] \<and> explored_way_ids snap = [1]"
    using update_example[of "''Marly-le-Roi''"] by simp
  show ?thesis using u nv v a b unfolding s1 by blast
qed

section \<open>Streets with fewer than two vertices\<close>

text \<open>
  An entry with fewer than two vertices is not the nearest match of any fix, so a
  fix, and any sequence of fixes, leaves it as it is.
\<close>

lemma updatePosition_short_entry:
  assumes "length (coords (segmentCoverages s ! i)) < 2"
  shows "segmentCoverages (stateOf (updatePosition ready lon lat s)) ! i = segmentCoverages s ! i"
proof -
  from updatePosition_shape[of ready lon lat s]
  consider "stateOf (updatePosition ready lon lat s) = s"
    | "stateOf (updatePosition ready lon lat s) = storePosition lon lat s"
    | fs n where "findNearestSegment lon lat (segmentCoverages s) = Inr (Some n)"
        "stateOf (updatePosition ready lon lat s) = coverNearest fs n (storePosition lon lat s)"
    by blast
  then show ?thesis
  proof cases
    case 1 then show ?thesis by simp
  next
    case 2 then show ?thesis by simp
  next
    case 3
    have "2 \<le> length (coords (segmentCoverages s ! nearCoverage n))"
      using findNearestSegment_Some[OF 3(1)] by simp
    then have "i \<noteq> nearCoverage n" using assms by auto
    then show ?thesis using 3(2) by (simp add: coverNearest_frame)
  qed
qed

lemma processFixes_short_entry:
  "length (coords (segmentCoverages s ! i)) < 2
     \<Longrightarrow> segmentCoverages (processFixes fxs s) ! i = segmentCoverages s ! i"
proof (induction fxs arbitrary: s)
  case Nil
  then show ?case by simp
next
  case (Cons f fxs)
  let ?s1 = "stateOf (updatePosition (fst f) (fst (snd f)) (snd (snd f)) s)"
  have e: "segmentCoverages ?s1 ! i = segmentCoverages s ! i"
    using Cons.prems by (rule updatePosition_short_entry)
  then have "length (coords (segmentCoverages ?s1 ! i)) < 2" using Cons.prems by simp
  from Cons.IH[OF this] e show ?case by simp
qed

lemma sample_empty: "sampleLineStringWithT [] stepMeters = Some []"
  by (simp add: sampleLineStringWithT_def)

lemma load_emptyStreet:
  "segmentCoverages (session c emptyStreetLoad [])
     = [\<lparr>wayId = 2, featureIndex = 0, coords = [], samples = [], covered = [],
         validated = False, minCoveredT = 1, maxCoveredT = 0\<rparr>]
   \<and> geojson (session c emptyStreetLoad []) = Some [\<lparr>featureId = 2, coordinates = []\<rparr>]"
  by (simp add: session_def mapLoad_def emptyStreetLoad_def streetsToGeoJSON_def newCoverage_def
      sample_empty)

text \<open>
  C7. A street with fewer than two vertices is never the match winner and no fix
  changes its entry (the two lemmas above), so it never becomes validated by fixes.
  The claim that processing a fix never fails on such a street does not hold for a
  street with no vertex at all: \<open>projectOntoLineString\<close> reads \<open>coords[0][0]\<close>
  without the length guard its two sibling functions have, and the fix handler is left
  by a \<open>TypeError\<close>. The session below loads one street whose geometry is empty
  and processes the fix at longitude 0, latitude 0.
\<close>

theorem empty_geometry_fix_throws:
  "updatePosition True 0 0 (session ''Marly-le-Roi'' emptyStreetLoad [])
     = Threw TypeError (storePosition 0 0 (session ''Marly-le-Roi'' emptyStreetLoad []))"
  using load_emptyStreet[of "''Marly-le-Roi''"]
  by (simp add: updatePosition_def Let_def findNearestSegment_def projectOntoLineString_empty)

section \<open>Restoring a snapshot\<close>

lemma findIndex_None: "findIndex P xs = None \<longleftrightarrow> (\<forall>x\<in>set xs. \<not> P x)"
  by (induction xs) (auto split: option.splits)

lemma findIndex_Some: "findIndex P xs = Some i \<Longrightarrow> i < length xs \<and> P (xs ! i)"
  by (induction xs arbitrary: i) (auto split: option.splits if_splits)

lemma findIndex_map: "findIndex (\<lambda>x. P (f x)) xs = findIndex P (map f xs)"
  by (induction xs) auto

lemma restoreId_coverages:
  "segmentCoverages (restoreId w s) = restoreCov w (segmentCoverages s)"
  by (simp add: restoreId_def restoreCov_def restoredEntry_def Let_def split: option.splits)

lemma fold_restoreId_coverages:
  "segmentCoverages (fold restoreId ws s) = fold restoreCov ws (segmentCoverages s)"
  by (induction ws arbitrary: s) (simp_all add: restoreId_coverages)

lemma fold_restoreId_validated:
  "validatedWayIds (fold restoreId ws s) = fold setAdd ws (validatedWayIds s)"
  by (induction ws arbitrary: s) simp_all

lemma fold_restoreId_savedCount [simp]:
  "savedCount (fold restoreId ws s) = savedCount s"
  by (induction ws arbitrary: s) simp_all

lemma fold_setAdd_set: "set (fold setAdd ws xs) = set ws \<union> set xs"
  by (induction ws arbitrary: xs) (auto simp: setAdd_set)

lemma restoreCov_wayIds: "map wayId (restoreCov w covs) = map wayId covs"
proof (cases "findIndex (\<lambda>cv. wayId cv = w) covs")
  case None
  then show ?thesis by (simp add: restoreCov_def)
next
  case (Some i)
  then have "i < length covs" using findIndex_Some by fastforce
  then have "map wayId (covs[i := restoredEntry (covs ! i)]) = map wayId covs"
    by (simp add: map_update restoredEntry_def list_update_same_conv)
  then show ?thesis using Some by (simp add: restoreCov_def)
qed

lemma restoreCov_length [simp]: "length (restoreCov w covs) = length covs"
  by (simp add: restoreCov_def split: option.splits)

lemma restoreCov_unknown: "w \<notin> wayId ` set covs \<Longrightarrow> restoreCov w covs = covs"
proof -
  assume "w \<notin> wayId ` set covs"
  then have "findIndex (\<lambda>cv. wayId cv = w) covs = None" by (auto simp: findIndex_None)
  then show ?thesis by (simp add: restoreCov_def)
qed

lemma fold_restoreCov_known:
  "fold restoreCov ws covs = fold restoreCov (filter (\<lambda>w. w \<in> wayId ` set covs) ws) covs"
proof (induction ws arbitrary: covs)
  case Nil
  then show ?case by simp
next
  case (Cons w ws)
  have ids: "wayId ` set (restoreCov w covs) = wayId ` set covs"
    using restoreCov_wayIds[of w covs] by (metis list.set_map)
  show ?case
  proof (cases "w \<in> wayId ` set covs")
    case True
    then show ?thesis using Cons[of "restoreCov w covs"] ids by simp
  next
    case False
    then show ?thesis using Cons[of covs] by (simp add: restoreCov_unknown)
  qed
qed

lemma isRestored_restoredEntry: "isRestored (restoredEntry cv)"
  by (simp add: isRestored_def restoredEntry_def)

lemma restoredEntry_idem: "isRestored cv \<Longrightarrow> restoredEntry cv = cv"
  by (simp add: isRestored_def restoredEntry_def)

lemma restoreCov_keeps:
  assumes "i < length covs" "isRestored (covs ! i)"
  shows "isRestored (restoreCov w covs ! i)"
proof (cases "findIndex (\<lambda>cv. wayId cv = w) covs")
  case None
  then show ?thesis using assms by (simp add: restoreCov_def)
next
  case (Some j)
  then have "j < length covs" using findIndex_Some by fastforce
  then show ?thesis using Some assms
    by (cases "i = j") (simp_all add: restoreCov_def isRestored_restoredEntry)
qed

lemma fold_restoreCov_keeps:
  "i < length covs \<Longrightarrow> isRestored (covs ! i) \<Longrightarrow> isRestored (fold restoreCov ws covs ! i)"
  by (induction ws arbitrary: covs) (simp_all add: restoreCov_keeps)

lemma fold_restoreCov_wayIds: "map wayId (fold restoreCov ws covs) = map wayId covs"
  by (induction ws arbitrary: covs) (simp_all add: restoreCov_wayIds)

lemma fold_restoreCov_restores:
  assumes "w \<in> set ws" "findIndex (\<lambda>cv. wayId cv = w) covs = Some i"
  shows "isRestored (fold restoreCov ws covs ! i)"
  using assms
proof (induction ws arbitrary: covs)
  case Nil
  then show ?case by simp
next
  case (Cons v ws)
  have il: "i < length covs" using Cons.prems(2) findIndex_Some by fastforce
  have fi: "findIndex (\<lambda>cv. wayId cv = w) (restoreCov v covs) = Some i"
    using Cons.prems(2) restoreCov_wayIds[of v covs]
    by (simp add: findIndex_map[of "\<lambda>x. x = w" wayId])
  show ?case
  proof (cases "v = w")
    case True
    have "restoreCov v covs ! i = restoredEntry (covs ! i)"
      using True Cons.prems(2) il by (simp add: restoreCov_def)
    then have "isRestored (restoreCov v covs ! i)" by (simp add: isRestored_restoredEntry)
    then show ?thesis using il by (simp add: fold_restoreCov_keeps)
  next
    case False
    then have "w \<in> set ws" using Cons.prems(1) by simp
    from Cons.IH[OF this fi] show ?thesis by simp
  qed
qed

lemma mapLoad_loaded:
  assumes "dataLoaded inp"
  shows "segmentCoverages (mapLoad inp s)
           = fold restoreCov (savedIds inp)
               (map (\<lambda>(idx, f). newCoverage idx f)
                  (zip [0..<length (streetsToGeoJSON (streets inp))] (streetsToGeoJSON (streets inp))))"
    and "validatedWayIds (mapLoad inp s) = fold setAdd (savedIds inp) (validatedWayIds s)"
    and "savedCount (mapLoad inp s) = int (length (savedIds inp))"
    and "exploredSource (mapLoad inp s)
           = (if length (savedIds inp) > 0
              then filter (\<lambda>f. featureId f \<in> set (fold setAdd (savedIds inp) (validatedWayIds s)))
                     (streetsToGeoJSON (streets inp))
              else [])"
    and "exploredCount (mapLoad inp s)
           = (if length (savedIds inp) > 0 then length (savedIds inp) else exploredCount s)"
  using assms
  by (simp_all add: mapLoad_def Let_def fold_restoreId_coverages fold_restoreId_validated)

lemma newCoverage_wayId [simp]: "wayId (newCoverage idx f) = featureId f"
  by (simp add: newCoverage_def Let_def)

lemma newCoverage_wayIds:
  "wayId ` set (map (\<lambda>(idx, f). newCoverage idx f) (zip [0..<length fs] fs)) = featureId ` set fs"
proof -
  have "map wayId (map (\<lambda>(idx, f). newCoverage idx f) (zip [0..<length fs] fs))
          = map (\<lambda>p. featureId (snd p)) (zip [0..<length fs] fs)"
    by (simp add: case_prod_unfold comp_def)
  also have "\<dots> = map featureId (map snd (zip [0..<length fs] fs))"
    by (simp only: map_map comp_def)
  also have "\<dots> = map featureId fs" by simp
  finally show ?thesis by (metis list.set_map)
qed

lemma features_ids: "featureId ` set (streetsToGeoJSON ways) = osmId ` set ways"
  by (auto simp: streetsToGeoJSON_def image_iff)

lemma explored_filter:
  "(if length ws > 0 then filter (\<lambda>f. featureId f \<in> set (fold setAdd ws [])) fs else [])
     = filter (\<lambda>f. featureId f \<in> set ws) fs"
proof -
  have "set (fold setAdd ws []) = set ws" by (simp add: fold_setAdd_set)
  then show ?thesis by (cases ws) simp_all
qed

lemma initEngine_fields:
  "validatedWayIds (initEngine c) = []" "exploredCount (initEngine c) = 0"
  "savedCount (initEngine c) = 0"
  by (simp_all add: initEngine_def)

text \<open>
  C6 (as amended). When the restore snapshot is applied at session start (street data
  loaded), the saved way ids that correspond to no loaded street have no effect on
  the coverage entries nor on the derived validated geometry: both are what they are
  when only the known ids are restored. Every saved id that has a coverage entry is
  fully restored (validated, every sample covered, covered range 0 to 1), whatever
  unknown ids stand around it. The validated set however is the set of all saved ids,
  unknown ones included, and the saved count and the explored count are both the
  number of saved ids.
\<close>

theorem restore_unknown_ids:
  fixes inp c
  defines "known \<equiv> (\<lambda>w. w \<in> osmId ` set (streets inp))"
  defines "s \<equiv> mapLoad inp (initEngine c)"
  defines "sk \<equiv> mapLoad (inp\<lparr>savedIds := filter known (savedIds inp)\<rparr>) (initEngine c)"
  assumes loaded: "dataLoaded inp"
  shows "segmentCoverages s = segmentCoverages sk
       \<and> exploredSource s = exploredSource sk
       \<and> (\<forall>w\<in>set (savedIds inp). \<forall>i.
             findIndex (\<lambda>cv. wayId cv = w) (segmentCoverages s) = Some i \<longrightarrow>
               validated (segmentCoverages s ! i)
             \<and> covered (segmentCoverages s ! i)
                 = replicate (length (covered (segmentCoverages s ! i))) True
             \<and> minCoveredT (segmentCoverages s ! i) = 0
             \<and> maxCoveredT (segmentCoverages s ! i) = 1)
       \<and> set (validatedWayIds s) = set (savedIds inp)
       \<and> savedCount s = int (length (savedIds inp))
       \<and> exploredCount s = length (savedIds inp)"
proof -
  define fs where "fs = streetsToGeoJSON (streets inp)"
  define covs0 where "covs0 = map (\<lambda>(idx, f). newCoverage idx f) (zip [0..<length fs] fs)"
  let ?inpk = "inp\<lparr>savedIds := filter known (savedIds inp)\<rparr>"
  have lk: "dataLoaded ?inpk" using loaded by simp
  have ids0: "wayId ` set covs0 = osmId ` set (streets inp)"
    unfolding covs0_def fs_def by (simp only: newCoverage_wayIds features_ids)
  have cs: "segmentCoverages s = fold restoreCov (savedIds inp) covs0"
    unfolding s_def covs0_def fs_def using mapLoad_loaded(1)[OF loaded] by simp
  have csk: "segmentCoverages sk = fold restoreCov (filter known (savedIds inp)) covs0"
    unfolding sk_def covs0_def fs_def using mapLoad_loaded(1)[OF lk] by simp
  have kn: "known = (\<lambda>w. w \<in> wayId ` set covs0)" unfolding known_def ids0 by simp
  have p1: "segmentCoverages s = segmentCoverages sk"
    unfolding cs csk kn by (rule fold_restoreCov_known)
  have es: "exploredSource s = filter (\<lambda>f. featureId f \<in> set (savedIds inp)) fs"
    unfolding s_def fs_def mapLoad_loaded(4)[OF loaded] initEngine_fields
    by (rule explored_filter)
  have "exploredSource sk
      = (if length (filter known (savedIds inp)) > 0
         then filter (\<lambda>f. featureId f \<in> set (fold setAdd (filter known (savedIds inp)) [])) fs
         else [])"
    unfolding sk_def fs_def mapLoad_loaded(4)[OF lk] initEngine_fields by simp
  then have esk: "exploredSource sk = filter (\<lambda>f. featureId f \<in> set (filter known (savedIds inp))) fs"
    by (simp only: explored_filter)
  have "filter (\<lambda>f. featureId f \<in> set (savedIds inp)) fs
          = filter (\<lambda>f. featureId f \<in> set (filter known (savedIds inp))) fs"
  proof (rule filter_cong[OF refl])
    fix f assume "f \<in> set fs"
    then have "featureId f \<in> osmId ` set (streets inp)"
      unfolding fs_def using features_ids[of "streets inp"] by blast
    then show "(featureId f \<in> set (savedIds inp))
        = (featureId f \<in> set (filter known (savedIds inp)))"
      by (simp add: known_def)
  qed
  then have p2: "exploredSource s = exploredSource sk" using es esk by simp
  have p3: "\<forall>w\<in>set (savedIds inp). \<forall>i.
             findIndex (\<lambda>cv. wayId cv = w) (segmentCoverages s) = Some i \<longrightarrow>
               validated (segmentCoverages s ! i)
             \<and> covered (segmentCoverages s ! i)
                 = replicate (length (covered (segmentCoverages s ! i))) True
             \<and> minCoveredT (segmentCoverages s ! i) = 0
             \<and> maxCoveredT (segmentCoverages s ! i) = 1"
  proof (intro ballI allI impI)
    fix w i assume w: "w \<in> set (savedIds inp)"
      and f: "findIndex (\<lambda>cv. wayId cv = w) (segmentCoverages s) = Some i"
    have "findIndex (\<lambda>cv. wayId cv = w) covs0 = Some i"
      using f fold_restoreCov_wayIds[of "savedIds inp" covs0]
      by (simp add: cs findIndex_map[of "\<lambda>x. x = w" wayId])
    from fold_restoreCov_restores[OF w this]
    have "isRestored (segmentCoverages s ! i)" by (simp add: cs)
    then show "validated (segmentCoverages s ! i)
             \<and> covered (segmentCoverages s ! i)
                 = replicate (length (covered (segmentCoverages s ! i))) True
             \<and> minCoveredT (segmentCoverages s ! i) = 0
             \<and> maxCoveredT (segmentCoverages s ! i) = 1"
      by (simp add: isRestored_def)
  qed
  have p4: "set (validatedWayIds s) = set (savedIds inp)"
    unfolding s_def mapLoad_loaded(2)[OF loaded] initEngine_fields
    by (simp add: fold_setAdd_set)
  have p5: "savedCount s = int (length (savedIds inp))"
    unfolding s_def using mapLoad_loaded(3)[OF loaded] by simp
  have p6: "exploredCount s = length (savedIds inp)"
    unfolding s_def mapLoad_loaded(5)[OF loaded] initEngine_fields by simp
  show ?thesis using p1 p2 p3 p4 p5 p6 by blast
qed

lemma restoreLoad_coverages:
  "segmentCoverages (mapLoad restoreLoad (initEngine c)) = [restoredEntry metreStreet]"
proof -
  have l: "dataLoaded restoreLoad" by (simp add: restoreLoad_def exampleLoad_def)
  have w: "wayId metreStreet = 1" by (simp add: metreStreet_def)
  have n: "newCoverage 0 \<lparr>featureId = 1, coordinates = [(0, 0), (0, 1 / 111000)]\<rparr> = metreStreet"
    by (simp add: newCoverage_def SAMPLE_STEP_METERS_def sample_metre metreStreet_def)
  show ?thesis
    unfolding mapLoad_loaded(1)[OF l]
    by (simp add: restoreLoad_def exampleLoad_def streetsToGeoJSON_def n restoreCov_def w)
qed

theorem restore_unknown_ids_witness:
  "dataLoaded restoreLoad
   \<and> 99 \<in> set (savedIds restoreLoad) \<and> 99 \<notin> osmId ` set (streets restoreLoad)
   \<and> 1 \<in> set (savedIds restoreLoad)
   \<and> findIndex (\<lambda>cv. wayId cv = 1)
        (segmentCoverages (mapLoad restoreLoad (initEngine ''Marly-le-Roi''))) = Some 0
   \<and> validated (segmentCoverages (mapLoad restoreLoad (initEngine ''Marly-le-Roi'')) ! 0)
   \<and> segmentCoverages (mapLoad restoreLoad (initEngine ''Marly-le-Roi''))
       = segmentCoverages (mapLoad (restoreLoad\<lparr>savedIds := [1]\<rparr>) (initEngine ''Marly-le-Roi''))"
proof -
  let ?s = "mapLoad restoreLoad (initEngine ''Marly-le-Roi'')"
  have l: "dataLoaded restoreLoad" by (simp add: restoreLoad_def exampleLoad_def)
  have i1: "99 \<in> set (savedIds restoreLoad)" "1 \<in> set (savedIds restoreLoad)"
    by (simp_all add: restoreLoad_def)
  have i2: "99 \<notin> osmId ` set (streets restoreLoad)"
    by (simp add: restoreLoad_def exampleLoad_def)
  have fl: "filter (\<lambda>w. w \<in> osmId ` set (streets restoreLoad)) (savedIds restoreLoad) = [1]"
    by (simp add: restoreLoad_def exampleLoad_def)
  have f: "findIndex (\<lambda>cv. wayId cv = 1) (segmentCoverages ?s) = Some 0"
    by (simp add: restoreLoad_coverages restoredEntry_def metreStreet_def)
  from restore_unknown_ids[OF l, of "''Marly-le-Roi''"] i1(2) f fl
  have "validated (segmentCoverages ?s ! 0)"
    and "segmentCoverages ?s
       = segmentCoverages (mapLoad (restoreLoad\<lparr>savedIds := [1]\<rparr>) (initEngine ''Marly-le-Roi''))"
    by auto
  then show ?thesis using l i1 i2 f by blast
qed

text \<open>
  C6 as stated fails: with one loaded street of id 1 and the saved ids \<open>[99]\<close>, the
  unknown id 99 is in the validated set, and the saved count and the explored count
  are 1; with no saved id they are empty and 0.
\<close>

theorem restore_unknown_id_counts:
  "map osmId (streets exampleLoad) = [1]
   \<and> validatedWayIds (mapLoad (exampleLoad\<lparr>savedIds := [99]\<rparr>) (initEngine ''Marly-le-Roi'')) = [99]
   \<and> savedCount (mapLoad (exampleLoad\<lparr>savedIds := [99]\<rparr>) (initEngine ''Marly-le-Roi'')) = 1
   \<and> exploredCount (mapLoad (exampleLoad\<lparr>savedIds := [99]\<rparr>) (initEngine ''Marly-le-Roi'')) = 1
   \<and> validatedWayIds (mapLoad (exampleLoad\<lparr>savedIds := []\<rparr>) (initEngine ''Marly-le-Roi'')) = []
   \<and> savedCount (mapLoad (exampleLoad\<lparr>savedIds := []\<rparr>) (initEngine ''Marly-le-Roi'')) = 0
   \<and> exploredCount (mapLoad (exampleLoad\<lparr>savedIds := []\<rparr>) (initEngine ''Marly-le-Roi'')) = 0"
proof -
  have l: "dataLoaded (exampleLoad\<lparr>savedIds := ws\<rparr>)" for ws by (simp add: exampleLoad_def)
  show ?thesis
    unfolding mapLoad_loaded(2,3,5)[OF l] initEngine_fields
    by (simp add: exampleLoad_def setAdd_def)
qed

section \<open>The sampler in closed form\<close>

lemma sampleSteps_map:
  "sampleSteps a b segLen cumDist totalLen steps j
     = map (samplePoint a b segLen cumDist totalLen steps) [j..<steps]"
proof (induction a b segLen cumDist totalLen steps j rule: sampleSteps.induct)
  case (1 a b segLen cumDist totalLen steps j)
  show ?case
  proof (cases "j < steps")
    case True
    have "sampleSteps a b segLen cumDist totalLen steps j
        = samplePoint a b segLen cumDist totalLen steps j
            # sampleSteps a b segLen cumDist totalLen steps (Suc j)"
      using True by (subst sampleSteps.simps) simp
    also have "\<dots> = samplePoint a b segLen cumDist totalLen steps j
            # map (samplePoint a b segLen cumDist totalLen steps) [Suc j..<steps]"
      using 1[OF True] by simp
    also have "\<dots> = map (samplePoint a b segLen cumDist totalLen steps) [j..<steps]"
      using True by (simp add: upt_conv_Cons)
    finally show ?thesis .
  next
    case False
    have "sampleSteps a b segLen cumDist totalLen steps j = []"
      using False by (subst sampleSteps.simps) simp
    then show ?thesis using False by simp
  qed
qed

lemma segLengths_length [simp]: "length (segLengths cosLat xs) = length xs - 1"
  by (induction cosLat xs rule: segLengths.induct) simp_all

lemma segSamplesFrom_0:
  "segSamplesFrom cosLat stepMeters totalLen (a # b # rest) c 0
     = map (samplePoint a b (segLength cosLat a b) c totalLen
              (nat (max 1 \<lceil>segLength cosLat a b / stepMeters\<rceil>)))
         [0..<nat (max 1 \<lceil>segLength cosLat a b / stepMeters\<rceil>)]"
  by (simp add: segSamplesFrom_def)

lemma segSamplesFrom_Suc:
  "segSamplesFrom cosLat stepMeters totalLen (a # b # rest) c (Suc i)
     = segSamplesFrom cosLat stepMeters totalLen (b # rest) (c + segLength cosLat a b) i"
  by (simp add: segSamplesFrom_def add.assoc)

lemma upt_0_Suc_map: "[0..<Suc n] = 0 # map Suc [0..<n]"
  by (simp add: upt_conv_Cons map_Suc_upt del: upt_Suc)

lemma sampleSegments_closed:
  "stepMeters \<noteq> 0 \<Longrightarrow> sampleSegments cosLat stepMeters totalLen xs c
     = Some (concat (map (segSamplesFrom cosLat stepMeters totalLen xs c) [0..<length xs - 1]))"
proof (induction cosLat stepMeters totalLen xs c rule: sampleSegments.induct)
  case (1 cosLat stepMeters totalLen a b rest cumDist)
  let ?steps = "nat (max 1 \<lceil>segLength cosLat a b / stepMeters\<rceil>)"
  have sc: "stepCount (segLength cosLat a b) stepMeters = Some ?steps"
    using "1.prems" by (simp add: stepCount_def)
  have ih: "sampleSegments cosLat stepMeters totalLen (b # rest) (cumDist + segLength cosLat a b)
      = Some (concat (map (segSamplesFrom cosLat stepMeters totalLen (b # rest)
                             (cumDist + segLength cosLat a b)) [0..<length (b # rest) - 1]))"
    using "1.IH"[OF sc "1.prems"] .
  have idx: "[0..<length (a # b # rest) - 1] = 0 # map Suc [0..<length (b # rest) - 1]"
    using upt_0_Suc_map[of "length rest"] by simp
  have "concat (map (segSamplesFrom cosLat stepMeters totalLen (a # b # rest) cumDist)
                  [0..<length (a # b # rest) - 1])
      = segSamplesFrom cosLat stepMeters totalLen (a # b # rest) cumDist 0
        @ concat (map (segSamplesFrom cosLat stepMeters totalLen (b # rest)
                         (cumDist + segLength cosLat a b)) [0..<length (b # rest) - 1])"
    unfolding idx by (simp add: comp_def segSamplesFrom_Suc del: upt_Suc)
  then show ?case
    by (simp add: sc ih segSamplesFrom_0 sampleSteps_map del: upt_Suc)
qed simp_all

lemma segLengths_nth:
  "Suc i < length xs \<Longrightarrow> segLengths cosLat xs ! i = segLength cosLat (xs ! i) (xs ! Suc i)"
proof (induction cosLat xs arbitrary: i rule: segLengths.induct)
  case (1 cosLat a b rest)
  then show ?case by (cases i) simp_all
qed simp_all

text \<open>
  The sampler returns for the step of 5 metres, whatever the coordinates.
\<close>

lemma sampleLineStringWithT_returns:
  "\<exists>ss. sampleLineStringWithT cs SAMPLE_STEP_METERS = Some ss"
proof -
  have "(5::real) \<noteq> 0" by simp
  from sampleSegments_closed[OF this] show ?thesis
    by (simp add: sampleLineStringWithT_def Let_def SAMPLE_STEP_METERS_def)
qed

text \<open>
  C5 (as amended). For every coordinate list with at least 2 vertices and every
  positive step, the sampler returns, and what it returns is, segment after segment,
  the samples \<open>spec_segmentSamples\<close> of the segment (local \<open>t = j / steps\<close> for
  \<open>j < steps\<close>, the point interpolated at the local \<open>t\<close>, global
  \<open>t = (cumDist + localT * segLen) / total\<close> when the total length is positive and
  0 when it is 0, \<open>cumDist\<close> the sum of the lengths of the segments before), followed
  by exactly one final sample at the last vertex with \<open>t = 1\<close>. The number of samples
  of a segment is \<open>max 1 (ceil (segLen / stepMeters))\<close>: a segment of length 0
  still gives one sample.
\<close>

theorem sampler_closed_form:
  assumes "2 \<le> length cs" and "0 < stepMeters"
  shows "sampleLineStringWithT cs stepMeters
           = Some (concat (map (spec_segmentSamples cs stepMeters) [0..<length cs - 1])
                   @ [\<lparr>sampleLon = fst (last cs), sampleLat = snd (last cs), sampleT = 1\<rparr>])
       \<and> (\<forall>i<length cs - 1.
             int (length (spec_segmentSamples cs stepMeters i))
               = max 1 \<lceil>segLength (cos ((snd (hd cs) * pi) / 180)) (cs ! i) (cs ! Suc i)
                           / stepMeters\<rceil>)"
proof -
  define cosLat where "cosLat = cos ((snd (hd cs) * pi) / 180)"
  define totalLen where "totalLen = sum_list (segLengths cosLat cs)"
  have ne: "stepMeters \<noteq> 0" using assms(2) by simp
  have eq: "segSamplesFrom cosLat stepMeters totalLen cs 0 = spec_segmentSamples cs stepMeters"
    by (rule ext) (simp add: segSamplesFrom_def spec_segmentSamples_def Let_def samplePoint_def
        cosLat_def totalLen_def)
  have "sampleLineStringWithT cs stepMeters
      = Some (concat (map (segSamplesFrom cosLat stepMeters totalLen cs 0) [0..<length cs - 1])
              @ [\<lparr>sampleLon = fst (last cs), sampleLat = snd (last cs), sampleT = 1\<rparr>])"
    using assms(1) sampleSegments_closed[OF ne, of cosLat totalLen cs 0]
    by (simp add: sampleLineStringWithT_def Let_def cosLat_def totalLen_def)
  then have p1: "sampleLineStringWithT cs stepMeters
           = Some (concat (map (spec_segmentSamples cs stepMeters) [0..<length cs - 1])
                   @ [\<lparr>sampleLon = fst (last cs), sampleLat = snd (last cs), sampleT = 1\<rparr>])"
    by (simp add: eq)
  have p2: "\<forall>i<length cs - 1.
             int (length (spec_segmentSamples cs stepMeters i))
               = max 1 \<lceil>segLength (cos ((snd (hd cs) * pi) / 180)) (cs ! i) (cs ! Suc i)
                           / stepMeters\<rceil>"
  proof (intro allI impI)
    fix i assume "i < length cs - 1"
    then have "Suc i < length cs" by simp
    then show "int (length (spec_segmentSamples cs stepMeters i))
               = max 1 \<lceil>segLength (cos ((snd (hd cs) * pi) / 180)) (cs ! i) (cs ! Suc i)
                           / stepMeters\<rceil>"
      by (simp add: spec_segmentSamples_def Let_def segLengths_nth)
  qed
  show ?thesis using p1 p2 by blast
qed

theorem sampler_closed_form_witness:
  "2 \<le> length [(0, 0), (0, 1 / 111000 :: real)] \<and> (0::real) < 5
   \<and> sampleLineStringWithT [(0, 0), (0, 1 / 111000)] 5
       = Some (concat (map (spec_segmentSamples [(0, 0), (0, 1 / 111000)] 5) [0..<1])
               @ [\<lparr>sampleLon = 0, sampleLat = 1 / 111000, sampleT = 1\<rparr>])
   \<and> int (length (spec_segmentSamples [(0, 0), (0, 1 / 111000)] 5 0)) = 1"
proof -
  have h1: "2 \<le> length [(0, 0), (0, 1 / 111000 :: real)]" by simp
  have h2: "(0::real) < 5" by simp
  have c: "\<lceil>segLength (cos ((snd (hd [(0, 0), (0, 1 / 111000 :: real)]) * pi) / 180))
              ([(0, 0), (0, 1 / 111000)] ! 0) ([(0, 0), (0, 1 / 111000)] ! Suc 0) / 5\<rceil> = 1"
  proof -
    have "\<lceil>1 / 5 :: real\<rceil> = 1" by (rule ceiling_unique) simp_all
    then show ?thesis by (simp add: segLength_metre)
  qed
  from sampler_closed_form[OF h1 h2] c show ?thesis by simp
qed

text \<open>
  C5 as stated fails on a segment of length 0: \<open>ceil (0 / 5) = 0\<close>, yet the segment
  contributes one sample (the first of the two below), by \<open>Math.max(1, ...)\<close>.
\<close>

theorem sampler_zero_length_segment:
  "sampleLineStringWithT [(0, 0), (0, 0)] 5
     = Some [\<lparr>sampleLon = 0, sampleLat = 0, sampleT = 0\<rparr>,
             \<lparr>sampleLon = 0, sampleLat = 0, sampleT = 1\<rparr>]
   \<and> \<lceil>segLength (cos ((snd (hd [(0, 0), (0, 0 :: real)]) * pi) / 180)) (0, 0) (0, 0) / 5\<rceil> = 0"
  by (simp add: sampleLineStringWithT_def segLength_def stepCount_def samplePoint_def
      sampleSteps.simps)

section \<open>The sub-polyline in closed form\<close>

lemma segLength_nonneg: "0 \<le> segLength cosLat a b"
  by (simp add: segLength_def Let_def)

lemma segLengths_sum_nonneg: "0 \<le> sum_list (segLengths cosLat xs)"
  by (induction cosLat xs rule: segLengths.induct) (simp_all add: segLength_nonneg)

lemma verticesWithin_beyond:
  "hi < c \<Longrightarrow> verticesWithin cosLat lo hi xs c = []"
proof (induction cosLat lo hi xs c rule: verticesWithin.induct)
  case (1 cosLat lo hi a b rest c)
  have "hi < c + segLength cosLat a b" using "1.prems" segLength_nonneg[of cosLat a b] by linarith
  then show ?case using 1 by simp
qed simp_all

lemma subLoop_char:
  assumes "c \<le> e" and "s \<le> e" and "points \<noteq> [] \<longrightarrow> s \<le> c"
    and "points = [] \<longrightarrow> s \<le> c + sum_list (segLengths cosLat xs)"
  shows "subLoop cosLat s e xs c points
           = points @ (if points = [] \<and> 2 \<le> length xs then [startPoint cosLat s xs c] else [])
               @ verticesWithin cosLat s e xs c @ endPoints cosLat e xs c"
  using assms
proof (induction cosLat s e xs c points rule: subLoop.induct)
  case (1 cosLat s e a b rest c points)
  let ?l = "segLength cosLat a b"
  have l0: "0 \<le> ?l" by (rule segLength_nonneg)
  consider (skip) "c + ?l < s" | (push) "s \<le> c + ?l" "c + ?l \<le> e" | (stop) "s \<le> c + ?l" "e < c + ?l"
    by linarith
  then show ?case
  proof cases
    case skip
    have pe: "points = []" using skip "1.prems"(3) l0 by (cases points) auto
    have tot: "s \<le> (c + ?l) + sum_list (segLengths cosLat (b # rest))"
      using "1.prems"(4) pe by (simp add: add.assoc)
    have r2: "2 \<le> length (b # rest)"
    proof (cases rest)
      case Nil
      then show ?thesis using tot skip by simp
    next
      case (Cons x xs)
      then show ?thesis by simp
    qed
    have ce: "c + ?l \<le> e" using skip "1.prems"(2) by linarith
    have ih: "subLoop cosLat s e (b # rest) (c + ?l) points
           = points @ (if points = [] \<and> 2 \<le> length (b # rest)
                       then [startPoint cosLat s (b # rest) (c + ?l)] else [])
               @ verticesWithin cosLat s e (b # rest) (c + ?l) @ endPoints cosLat e (b # rest) (c + ?l)"
      using "1.IH"(1)[OF skip ce "1.prems"(2)] pe tot by simp
    show ?thesis using skip ce ih pe r2 by simp
  next
    case push
    let ?pts = "pushFirst s a b ?l c points @ [b]"
    have ne: "?pts \<noteq> []" by simp
    have ih: "subLoop cosLat s e (b # rest) (c + ?l) ?pts
           = ?pts @ verticesWithin cosLat s e (b # rest) (c + ?l) @ endPoints cosLat e (b # rest) (c + ?l)"
      using "1.IH"(2)[of] push "1.prems"(1,2) ne by simp
    have pf: "pushFirst s a b ?l c points
        = points @ (if points = [] then [startPoint cosLat s (a # b # rest) c] else [])"
      using push by (simp add: pushFirst_def)
    show ?thesis using push "1.prems"(1) ih pf by simp
  next
    case stop
    have lp: "0 < ?l" using stop "1.prems"(1) by linarith
    have pf: "pushFirst s a b ?l c points
        = points @ (if points = [] then [startPoint cosLat s (a # b # rest) c] else [])"
      using stop by (simp add: pushFirst_def)
    have vb: "verticesWithin cosLat s e (b # rest) (c + ?l) = []"
      using stop by (simp add: verticesWithin_beyond)
    show ?thesis using stop "1.prems"(1) pf vb lp by simp
  qed
next
  case (2 cosLat s e a c points)
  then show ?case by simp
next
  case (3 cosLat s e c points)
  then show ?case by simp
qed

lemma atArcLength_Cons:
  assumes "atArcLength cosLat (b # rest) (c + segLength cosLat a b) p d"
  shows "atArcLength cosLat (a # b # rest) c p d"
proof -
  from assms obtain i lam where h: "Suc i < length (b # rest)" "0 \<le> lam" "lam \<le> 1"
    "p = interp ((b # rest) ! i) ((b # rest) ! Suc i) lam"
    "c + segLength cosLat a b + sum_list (take i (segLengths cosLat (b # rest)))
       + lam * segLength cosLat ((b # rest) ! i) ((b # rest) ! Suc i) = d"
    unfolding atArcLength_def by blast
  have "Suc (Suc i) < length (a # b # rest)" using h(1) by simp
  moreover have "p = interp ((a # b # rest) ! Suc i) ((a # b # rest) ! Suc (Suc i)) lam"
    using h(4) by simp
  moreover have "c + sum_list (take (Suc i) (segLengths cosLat (a # b # rest)))
       + lam * segLength cosLat ((a # b # rest) ! Suc i) ((a # b # rest) ! Suc (Suc i)) = d"
    using h(5) by (simp add: add.assoc)
  ultimately show ?thesis unfolding atArcLength_def using h(2,3) by blast
qed

lemma atArcLength_first:
  assumes "0 \<le> lam" "lam \<le> 1" "c + lam * segLength cosLat a b = d"
  shows "atArcLength cosLat (a # b # rest) c (interp a b lam) d"
  unfolding atArcLength_def
  using assms by (intro exI[of _ 0] exI[of _ lam]) simp

lemma startPoint_on:
  assumes "c \<le> s" and "s \<le> c + sum_list (segLengths cosLat xs)" and "2 \<le> length xs"
  shows "atArcLength cosLat xs c (startPoint cosLat s xs c) s"
  using assms
proof (induction cosLat s xs c rule: startPoint.induct)
  case (1 cosLat s a b rest c)
  let ?l = "segLength cosLat a b"
  have l0: "0 \<le> ?l" by (rule segLength_nonneg)
  show ?case
  proof (cases "c + ?l < s")
    case True
    have tot: "s \<le> (c + ?l) + sum_list (segLengths cosLat (b # rest))"
      using "1.prems"(2) by (simp add: add.assoc)
    have r2: "2 \<le> length (b # rest)"
    proof (cases rest)
      case Nil
      then show ?thesis using tot True by simp
    next
      case (Cons x xs)
      then show ?thesis by simp
    qed
    have "c + ?l \<le> s" using True by simp
    from "1.IH"[OF True this tot r2]
    have "atArcLength cosLat (b # rest) (c + ?l) (startPoint cosLat s (b # rest) (c + ?l)) s" .
    then have "atArcLength cosLat (a # b # rest) c (startPoint cosLat s (b # rest) (c + ?l)) s"
      by (rule atArcLength_Cons)
    then show ?thesis using True by simp
  next
    case False
    then have le: "s \<le> c + ?l" by simp
    show ?thesis
    proof (cases "0 < ?l")
      case True
      let ?lam = "(s - c) / ?l"
      have a: "0 \<le> ?lam" using "1.prems"(1) True by simp
      have b: "?lam \<le> 1" using le True by (simp add: pos_divide_le_eq)
      have c: "c + ?lam * ?l = s" using True by simp
      have "max 0 ?lam = ?lam" using a by simp
      then have "startPoint cosLat s (a # b # rest) c = interp a b ?lam"
        using False True by simp
      then show ?thesis using atArcLength_first[OF a b c] by simp
    next
      case F: False
      then have z: "?l = 0" using l0 by simp
      then have sc: "s = c" using le "1.prems"(1) by simp
      have "startPoint cosLat s (a # b # rest) c = interp a b 0" using False z by simp
      moreover have "atArcLength cosLat (a # b # rest) c (interp a b 0) s"
        by (rule atArcLength_first) (simp_all add: sc)
      ultimately show ?thesis by simp
    qed
  qed
qed simp_all

lemma endPoints_on:
  assumes "c \<le> e" and "e < c + sum_list (segLengths cosLat xs)"
  shows "\<exists>p. endPoints cosLat e xs c = [p] \<and> atArcLength cosLat xs c p e"
  using assms
proof (induction cosLat e xs c rule: endPoints.induct)
  case (1 cosLat e a b rest c)
  let ?l = "segLength cosLat a b"
  show ?case
  proof (cases "c + ?l \<le> e")
    case True
    have tot: "e < (c + ?l) + sum_list (segLengths cosLat (b # rest))"
      using "1.prems"(2) by (simp add: add.assoc)
    from "1.IH"[OF True True tot] obtain p where
      p: "endPoints cosLat e (b # rest) (c + ?l) = [p]" "atArcLength cosLat (b # rest) (c + ?l) p e"
      by blast
    have "atArcLength cosLat (a # b # rest) c p e" using p(2) by (rule atArcLength_Cons)
    then show ?thesis using True p(1) by simp
  next
    case False
    then have lp: "0 < ?l" using "1.prems"(1) by linarith
    let ?lam = "(e - c) / ?l"
    have a: "0 \<le> ?lam" using "1.prems"(1) lp by simp
    have b: "?lam \<le> 1" using False lp by (simp add: pos_divide_le_eq)
    have c: "c + ?lam * ?l = e" using lp by simp
    have "endPoints cosLat e (a # b # rest) c = [interp a b ?lam]" using False lp by simp
    then show ?thesis using atArcLength_first[OF a b c] by simp
  qed
qed simp_all

lemma endPoints_none:
  "c + sum_list (segLengths cosLat xs) \<le> e \<Longrightarrow> endPoints cosLat e xs c = []"
proof (induction cosLat e xs c rule: endPoints.induct)
  case (1 cosLat e a b rest c)
  have "0 \<le> sum_list (segLengths cosLat (b # rest))" by (rule segLengths_sum_nonneg)
  then have "c + segLength cosLat a b \<le> e" using "1.prems" by simp
  moreover have "(c + segLength cosLat a b) + sum_list (segLengths cosLat (b # rest)) \<le> e"
    using "1.prems" by (simp add: add.assoc)
  ultimately show ?case using "1.IH" by simp
qed simp_all

lemma verticesWithin_last:
  assumes "2 \<le> length xs" and "lo \<le> c + sum_list (segLengths cosLat xs)"
    and "c + sum_list (segLengths cosLat xs) \<le> hi"
  shows "verticesWithin cosLat lo hi xs c \<noteq> [] \<and> last (verticesWithin cosLat lo hi xs c) = last xs"
  using assms
proof (induction cosLat lo hi xs c rule: verticesWithin.induct)
  case (1 cosLat lo hi a b rest c)
  show ?case
  proof (cases rest)
    case Nil
    then show ?thesis using "1.prems" by simp
  next
    case (Cons x xs)
    then have r2: "2 \<le> length (b # rest)" by simp
    have "lo \<le> (c + segLength cosLat a b) + sum_list (segLengths cosLat (b # rest))"
      "(c + segLength cosLat a b) + sum_list (segLengths cosLat (b # rest)) \<le> hi"
      using "1.prems"(2,3) by (simp_all add: add.assoc)
    from "1.IH"[OF r2 this] show ?thesis using Cons by simp
  qed
qed simp_all

lemma verticesWithin_subseq: "subseq (verticesWithin cosLat lo hi xs c) (tl xs)"
proof (induction cosLat lo hi xs c rule: verticesWithin.induct)
  case (1 cosLat lo hi a b rest c)
  then have ih: "subseq (verticesWithin cosLat lo hi (b # rest) (c + segLength cosLat a b)) rest"
    by simp
  show ?case
  proof (cases "lo \<le> c + segLength cosLat a b \<and> c + segLength cosLat a b \<le> hi")
    case True
    then show ?thesis using ih by simp
  next
    case False
    then show ?thesis using list_emb_Cons[OF ih, of b] by auto
  qed
qed simp_all

text \<open>
  C8 (as amended). For every polyline with at least 2 vertices: if \<open>t0 \<ge> t1\<close> or the
  total planar length is 0, \<open>subLineString\<close> returns none. Otherwise, for \<open>t0\<close> and
  \<open>t1\<close> in \<open>[0, 1]\<close>, it returns a polyline that starts with a point of the original
  polyline at arc length \<open>t0 * total\<close>, continues with the original vertices after
  the first whose arc-length position lies between \<open>t0 * total\<close> and
  \<open>t1 * total\<close>, both bounds included, in the original order (a subsequence of the
  original vertices), and ends, when \<open>t1 < 1\<close>, with a point of the original polyline
  at arc length \<open>t1 * total\<close>; when \<open>t1 = 1\<close> the last of those vertices is the last
  vertex of the polyline.
\<close>

theorem subLineString_shape:
  fixes cs t0 t1
  defines "cosLat \<equiv> cos ((snd (hd cs) * pi) / 180)"
  defines "totalLen \<equiv> sum_list (segLengths cosLat cs)"
  assumes len: "2 \<le> length cs"
  shows "(t0 \<ge> t1 \<or> totalLen = 0 \<longrightarrow> subLineString cs t0 t1 = None)
       \<and> (0 \<le> t0 \<and> t0 < t1 \<and> t1 \<le> 1 \<and> totalLen \<noteq> 0 \<longrightarrow>
            (\<exists>p0 ends.
               subLineString cs t0 t1
                 = Some (p0 # verticesWithin cosLat (t0 * totalLen) (t1 * totalLen) cs 0 @ ends)
             \<and> atArcLength cosLat cs 0 p0 (t0 * totalLen)
             \<and> (if t1 < 1
                  then (\<exists>p1. ends = [p1] \<and> atArcLength cosLat cs 0 p1 (t1 * totalLen))
                  else ends = []
                     \<and> verticesWithin cosLat (t0 * totalLen) (t1 * totalLen) cs 0 \<noteq> []
                     \<and> last (verticesWithin cosLat (t0 * totalLen) (t1 * totalLen) cs 0)
                         = last cs)))
       \<and> subseq (verticesWithin cosLat (t0 * totalLen) (t1 * totalLen) cs 0) (tl cs)"
proof (intro conjI impI)
  show "subseq (verticesWithin cosLat (t0 * totalLen) (t1 * totalLen) cs 0) (tl cs)"
    by (rule verticesWithin_subseq)
next
  assume "t0 \<ge> t1 \<or> totalLen = 0"
  then show "subLineString cs t0 t1 = None"
    by (auto simp: subLineString_def Let_def cosLat_def totalLen_def)
next
  assume h: "0 \<le> t0 \<and> t0 < t1 \<and> t1 \<le> 1 \<and> totalLen \<noteq> 0"
  have tp: "0 < totalLen" using h segLengths_sum_nonneg[of cosLat cs] by (simp add: totalLen_def)
  let ?s = "t0 * totalLen" and ?e = "t1 * totalLen"
  have s0: "0 \<le> ?s" using h tp by simp
  have se: "?s < ?e" using h tp by simp
  have et: "?e \<le> totalLen" using h tp by (simp add: mult_left_le_one_le)
  have st: "?s \<le> 0 + sum_list (segLengths cosLat cs)" using se et by (simp add: totalLen_def)
  have e0: "0 \<le> ?e" using s0 se by linarith
  have loop: "subLoop cosLat ?s ?e cs 0 []
      = startPoint cosLat ?s cs 0 # verticesWithin cosLat ?s ?e cs 0 @ endPoints cosLat ?e cs 0"
    using subLoop_char[of 0 ?e ?s "[]" cosLat cs] e0 se st len by simp
  have p0: "atArcLength cosLat cs 0 (startPoint cosLat ?s cs 0) ?s"
    using startPoint_on[OF s0 st len] .
  have tail: "if t1 < 1
        then (\<exists>p1. endPoints cosLat ?e cs 0 = [p1] \<and> atArcLength cosLat cs 0 p1 ?e)
        else endPoints cosLat ?e cs 0 = []
           \<and> verticesWithin cosLat ?s ?e cs 0 \<noteq> []
           \<and> last (verticesWithin cosLat ?s ?e cs 0) = last cs"
  proof (cases "t1 < 1")
    case True
    then have "?e < 0 + sum_list (segLengths cosLat cs)" using tp by (simp add: totalLen_def)
    from endPoints_on[OF e0 this] True show ?thesis by simp
  next
    case False
    then have t1: "t1 = 1" using h by simp
    have a: "0 + sum_list (segLengths cosLat cs) \<le> ?e" using t1 by (simp add: totalLen_def)
    have b: "?s \<le> 0 + sum_list (segLengths cosLat cs)" by (rule st)
    from endPoints_none[OF a] verticesWithin_last[OF len b a] False show ?thesis by simp
  qed
  have two: "2 \<le> length (subLoop cosLat ?s ?e cs 0 [])"
  proof (cases "t1 < 1")
    case True
    then obtain p1 where "endPoints cosLat ?e cs 0 = [p1]" using tail by auto
    then show ?thesis by (simp add: loop)
  next
    case False
    then have "verticesWithin cosLat ?s ?e cs 0 \<noteq> []" using tail by simp
    then show ?thesis by (cases "verticesWithin cosLat ?s ?e cs 0") (simp_all add: loop)
  qed
  have "subLineString cs t0 t1 = Some (subLoop cosLat ?s ?e cs 0 [])"
    using h len tp two by (simp add: subLineString_def Let_def cosLat_def totalLen_def)
  then have res: "subLineString cs t0 t1
      = Some (startPoint cosLat ?s cs 0 # verticesWithin cosLat ?s ?e cs 0 @ endPoints cosLat ?e cs 0)"
    by (simp only: loop)
  show "\<exists>p0 ends.
               subLineString cs t0 t1
                 = Some (p0 # verticesWithin cosLat (t0 * totalLen) (t1 * totalLen) cs 0 @ ends)
             \<and> atArcLength cosLat cs 0 p0 (t0 * totalLen)
             \<and> (if t1 < 1
                  then (\<exists>p1. ends = [p1] \<and> atArcLength cosLat cs 0 p1 (t1 * totalLen))
                  else ends = []
                     \<and> verticesWithin cosLat (t0 * totalLen) (t1 * totalLen) cs 0 \<noteq> []
                     \<and> last (verticesWithin cosLat (t0 * totalLen) (t1 * totalLen) cs 0)
                         = last cs)"
    using res p0 tail by blast
qed

lemma bendStreet_lengths:
  "segLengths (cos ((snd (hd bendStreet) * pi) / 180)) bendStreet = [111000, 111000]"
  by (simp add: bendStreet_def segLength_def)

theorem subLineString_shape_witness:
  "2 \<le> length bendStreet \<and> (0::real) \<le> 0 \<and> (0::real) < 1 / 2 \<and> (1 / 2 :: real) \<le> 1
   \<and> sum_list (segLengths (cos ((snd (hd bendStreet) * pi) / 180)) bendStreet) \<noteq> 0
   \<and> (\<exists>p0 p1. subLineString bendStreet 0 (1 / 2)
         = Some (p0 # verticesWithin (cos ((snd (hd bendStreet) * pi) / 180)) 0 111000 bendStreet 0
                   @ [p1]))"
proof -
  have h1: "2 \<le> length bendStreet" by (simp add: bendStreet_def)
  have h2: "sum_list (segLengths (cos ((snd (hd bendStreet) * pi) / 180)) bendStreet) \<noteq> 0"
    by (simp add: bendStreet_lengths)
  have t: "sum_list (segLengths (cos ((snd (hd bendStreet) * pi) / 180)) bendStreet) = 222000"
    by (simp add: bendStreet_lengths)
  from subLineString_shape[OF h1, where ?t0.0 = 0 and ?t1.0 = "1 / 2"] h2
  have "\<exists>p0 p1. subLineString bendStreet 0 (1 / 2)
         = Some (p0 # verticesWithin (cos ((snd (hd bendStreet) * pi) / 180)) 0 111000 bendStreet 0
                   @ [p1])"
    unfolding t by auto
  then show ?thesis using h1 h2 by simp
qed

text \<open>
  C8 as stated fails when a bound falls exactly on a vertex: on the polyline of three
  vertices with two equal segments and \<open>t1 = 1/2\<close>, the middle vertex is an
  intermediate vertex of the result (before the interpolated end point, which equals
  it), yet no original vertex lies strictly between the two bounds.
\<close>

theorem subLineString_vertex_on_bound:
  "subLineString bendStreet 0 (1 / 2) = Some [(0, 0), (0, 1), (0, 1)]
   \<and> spec_verticesStrictlyWithin (cos ((snd (hd bendStreet) * pi) / 180))
        (0 * sum_list (segLengths (cos ((snd (hd bendStreet) * pi) / 180)) bendStreet))
        (1 / 2 * sum_list (segLengths (cos ((snd (hd bendStreet) * pi) / 180)) bendStreet))
        bendStreet 0 = []"
proof -
  have c: "cos ((snd (hd bendStreet) * pi) / 180) = 1" by (simp add: bendStreet_def)
  have l: "segLength 1 (0, 0) (0, 1) = 111000" "segLength 1 (0, 1) (0, 2) = 111000"
    by (simp_all add: segLength_def)
  have t: "sum_list (segLengths (cos ((snd (hd bendStreet) * pi) / 180)) bendStreet) = 222000"
    by (simp add: bendStreet_lengths)
  have a: "subLineString bendStreet 0 (1 / 2) = Some [(0, 0), (0, 1), (0, 1)]"
    unfolding subLineString_def Let_def t c
    by (simp add: bendStreet_def l pushFirst_def interp_def)
  have b: "spec_verticesStrictlyWithin (cos ((snd (hd bendStreet) * pi) / 180))
        (0 * sum_list (segLengths (cos ((snd (hd bendStreet) * pi) / 180)) bendStreet))
        (1 / 2 * sum_list (segLengths (cos ((snd (hd bendStreet) * pi) / 180)) bendStreet))
        bendStreet 0 = []"
    unfolding t c by (simp add: bendStreet_def l)
  show ?thesis by (rule conjI[OF a b])
qed

end
